theory Spec2Isabelle
  imports Main "HOL-Library.Sublist" "HOL-Library.AList"
begin

section \<open>The bake target resolution engine\<close>

text \<open>
  A shallow embedding of package \<open>bake\<close>: the configuration records, the override
  parser \<open>newOverrides\<close>, the pattern expansion \<open>expandTargets\<close>, the file merge
  \<open>mergeConfig\<close>, the field-level \<open>merge\<close>, the resolvers \<open>group\<close> /
  \<open>ResolveGroup\<close> and \<open>target\<close> / \<open>ResolveTarget\<close>, and the normaliser
  \<open>removeDupes\<close> / \<open>normalize\<close>.

  Go values are represented as follows.
  \<^item> A \<open>*string\<close> is a \<open>string option\<close>; \<open>None\<close> is the nil pointer.
  \<^item> A \<open>[]string\<close> is a \<open>string list option\<close>: \<open>None\<close> is the nil slice, \<open>Some xs\<close> a
    non-nil slice with the elements \<open>xs\<close> (\<open>Some []\<close> is non-nil and empty; \<open>merge\<close>
    tells the two apart). This first part of the development denotes a slice by its
    elements; a later section keeps the backing arrays in an explicit store.
  \<^item> A \<open>map[string]string\<close> is a \<open>(string \<rightharpoonup> string) option\<close>, \<open>None\<close> the nil map.
  \<^item> The two maps of a \<open>Config\<close> are association lists: the code ranges over them, and
    the order of the entries stands for the (unspecified) order in which \<open>range\<close>
    visits a Go map. Lookup is \<open>map_of\<close>.
  \<^item> The override table \<open>map[string]Target\<close> is only indexed, never ranged over: it is
    a map \<open>string \<rightharpoonup> Target\<close>, and indexing a missing key gives the zero \<open>Target\<close>.
  \<^item> Errors are values of the datatype \<open>error\<close>; a function that can fail returns
    \<open>error + 'a\<close>.
  \<^item> \<open>path.Match\<close> and \<open>os.LookupEnv\<close> belong to the Go library and to the process
    environment: they are parameters (\<open>M\<close> and \<open>env\<close>) of the functions that call them.
\<close>

subsection \<open>Data model\<close>

record Group =
  Targets :: "string list option"

record Target =
  Inherits :: "string list option"
  Context :: "string option"
  Dockerfile :: "string option"
  Args :: "(string \<rightharpoonup> string) option"
  Labels :: "(string \<rightharpoonup> string) option"
  Tags :: "string list option"
  CacheFrom :: "string list option"
  CacheTo :: "string list option"
  TargetStage :: "string option"
  Secrets :: "string list option"
  SSH :: "string list option"
  Platforms :: "string list option"
  Outputs :: "string list option"
  Pull :: bool
  NoCache :: bool

text \<open>
  Field \<open>TargetStage\<close> is the Go field \<open>Target.Target\<close> (the build stage), renamed
  because \<open>Config\<close> has a field \<open>Target\<close> too.
\<close>

record Config =
  Group :: "(string \<times> Group) list"
  Target :: "(string \<times> Target) list"

datatype error =
    InvalidOverrideKey string
  | InvalidOverride string
  | CouldNotMatchTargets string
  | NoTargetMatching string
  | ArgsRequiresName string
  | LabelsRequiresName string
  | InvalidBoolean string string
  | UnknownKey string
  | TargetNotFound string
  | Panic string

text \<open>
  The constructors stand for the messages of the source, each carrying the
  text that the format string interpolates:
  \<^item> \<open>InvalidOverrideKey k\<close>: "invalid override key k, expected target.name";
  \<^item> \<open>InvalidOverride v\<close>: "invalid override v, expected target.name=value";
  \<^item> \<open>CouldNotMatchTargets p\<close>: "could not match targets with 'p'" (wrapping
    \<open>path.ErrBadPattern\<close>);
  \<^item> \<open>NoTargetMatching p\<close>: "could not find any target matching 'p'";
  \<^item> \<open>ArgsRequiresName k\<close>: "invalid key k, args requires name";
  \<^item> \<open>LabelsRequiresName k\<close>: "invalid key k, lanels requires name";
  \<^item> \<open>InvalidBoolean v key\<close>: "invalid value v for boolean key key";
  \<^item> \<open>UnknownKey k\<close>: "unknown key: k";
  \<^item> \<open>TargetNotFound n\<close>: "failed to find target n";
  \<^item> \<open>Panic\<close>: a run-time panic (index out of range, nil dereference).
\<close>

definition zeroTarget :: Target where
  "zeroTarget = \<lparr>Inherits = None, Context = None, Dockerfile = None, Args = None,
     Labels = None, Tags = None, CacheFrom = None, CacheTo = None, TargetStage = None,
     Secrets = None, SSH = None, Platforms = None, Outputs = None, Pull = False,
     NoCache = False\<rparr>"

definition defaultTarget :: Target where
  "defaultTarget = zeroTarget"

subsection \<open>Go built-ins and library functions\<close>

text \<open>The elements of a slice; ranging over a nil slice visits nothing.\<close>

definition elems :: "'a list option \<Rightarrow> 'a list" where
  "elems s = (case s of None \<Rightarrow> [] | Some xs \<Rightarrow> xs)"

text \<open>
  \<open>append(s, ys...)\<close>: with nothing to add the slice is returned as it is (a nil slice
  stays nil); otherwise the result is non-nil.
\<close>

definition append_slice :: "'a list option \<Rightarrow> 'a list \<Rightarrow> 'a list option" where
  "append_slice s ys = (if ys = [] then s else Some (elems s @ ys))"

text \<open>The entries of a map; ranging over a nil map visits nothing.\<close>

definition entries :: "('k \<rightharpoonup> 'v) option \<Rightarrow> ('k \<rightharpoonup> 'v)" where
  "entries m = (case m of None \<Rightarrow> Map.empty | Some f \<Rightarrow> f)"

text \<open>
  \<open>strings.SplitN(s, sep, n)\<close> for a one-byte separator and \<open>n \<ge> 0\<close>: at most \<open>n\<close>
  pieces, the last one holding the unsplit rest; \<open>n = 0\<close> gives nil.
\<close>

fun SplitN :: "string \<Rightarrow> char \<Rightarrow> nat \<Rightarrow> string list" where
  "SplitN s sep 0 = []"
| "SplitN s sep (Suc n) =
     (if n = 0 \<or> sep \<notin> set s then [s]
      else takeWhile (\<lambda>c. c \<noteq> sep) s # SplitN (tl (dropWhile (\<lambda>c. c \<noteq> sep) s)) sep n)"

text \<open>\<open>strconv.ParseBool\<close>: \<open>None\<close> is its syntax error.\<close>

definition ParseBool :: "string \<Rightarrow> bool option" where
  "ParseBool str =
     (if str \<in> {''1'', ''t'', ''T'', ''true'', ''TRUE'', ''True''} then Some True
      else if str \<in> {''0'', ''f'', ''F'', ''false'', ''FALSE'', ''False''} then Some False
      else None)"

subsection \<open>merge\<close>

text \<open>
  The two \<open>range\<close> loops of \<open>merge\<close> store every entry of \<open>t2\<close>'s map in \<open>t1\<close>'s map,
  making the map first when it is nil. The keys of a map are distinct, so the order of
  the stores does not matter and the loop is map addition; with no entry the loop body
  never runs and \<open>t1\<close>'s map stays as it is, nil included.
\<close>

definition mergeMap :: "('k \<rightharpoonup> 'v) option \<Rightarrow> ('k \<rightharpoonup> 'v) option \<Rightarrow> ('k \<rightharpoonup> 'v) option" where
  "mergeMap m1 m2 = (if entries m2 = Map.empty then m1 else Some (entries m1 ++ entries m2))"

definition merge :: "Target \<Rightarrow> Target \<Rightarrow> Target" where
  "merge t1 t2 = t1
     \<lparr>Context := (if Context t2 \<noteq> None then Context t2 else Context t1),
      Dockerfile := (if Dockerfile t2 \<noteq> None then Dockerfile t2 else Dockerfile t1),
      Args := mergeMap (Args t1) (Args t2),
      Labels := mergeMap (Labels t1) (Labels t2),
      Tags := (if Tags t2 \<noteq> None then Tags t2 else Tags t1),
      TargetStage := (if TargetStage t2 \<noteq> None then TargetStage t2 else TargetStage t1),
      Secrets := (if Secrets t2 \<noteq> None then append_slice (Secrets t1) (elems (Secrets t2))
                  else Secrets t1),
      SSH := (if SSH t2 \<noteq> None then append_slice (SSH t1) (elems (SSH t2)) else SSH t1),
      Platforms := (if Platforms t2 \<noteq> None then Platforms t2 else Platforms t1),
      CacheFrom := (if CacheFrom t2 \<noteq> None
                    then append_slice (CacheFrom t1) (elems (CacheFrom t2)) else CacheFrom t1),
      CacheTo := (if CacheTo t2 \<noteq> None then CacheTo t2 else CacheTo t1),
      Outputs := (if Outputs t2 \<noteq> None then Outputs t2 else Outputs t1),
      Inherits := append_slice (Inherits t1) (elems (Inherits t2))\<rparr>"

text \<open>
  Each statement of \<open>merge\<close> assigns one field of the copy \<open>t1\<close>, from that field of
  \<open>t1\<close> and of \<open>t2\<close> alone, so the body is one record update, in the order of the
  source. \<open>Pull\<close> and \<open>NoCache\<close> are assigned by no statement of \<open>merge\<close>: the result
  keeps those of \<open>t1\<close>.
\<close>

subsection \<open>removeDupes and normalize\<close>

text \<open>
  \<open>removeDupes\<close> works in place: \<open>j\<close> is the index that \<open>range\<close> reads, \<open>i\<close> the index
  it writes, \<open>seen\<close> the set of values met so far. The loop returns the array as it
  stands at the end together with \<open>i\<close>; the result of \<open>removeDupes\<close> is the prefix
  \<open>s[:i]\<close>.
\<close>

function removeDupes_loop :: "string list \<Rightarrow> nat \<Rightarrow> nat \<Rightarrow> string set \<Rightarrow> string list \<times> nat" where
  "removeDupes_loop s j i seen =
     (if j < length s then
        (let v = s ! j in
         if v \<in> seen then removeDupes_loop s (j + 1) i seen
         else removeDupes_loop (s[i := v]) (j + 1) (i + 1) (insert v seen))
      else (s, i))"
  by pat_completeness auto
termination
  by (relation "measure (\<lambda>(s, j, i, seen). length s - j)") auto

definition removeDupes :: "string list option \<Rightarrow> string list option" where
  "removeDupes s =
     (case s of None \<Rightarrow> None
      | Some xs \<Rightarrow> (case removeDupes_loop xs 0 0 {} of (a, i) \<Rightarrow> Some (take i a)))"

definition normalize_Target :: "Target \<Rightarrow> Target" where
  "normalize_Target t = t
     \<lparr>Tags := removeDupes (Tags t),
      Secrets := removeDupes (Secrets t),
      SSH := removeDupes (SSH t),
      Platforms := removeDupes (Platforms t),
      CacheFrom := removeDupes (CacheFrom t),
      CacheTo := removeDupes (CacheTo t),
      Outputs := removeDupes (Outputs t)\<rparr>"

subsection \<open>mergeConfig\<close>

text \<open>
  The inner loop of the group case: a member of \<open>g\<close> is appended to \<open>g1\<close> unless
  \<open>g1\<close>, as it stands at that moment, has it already.
\<close>

fun mergeGroupTargets :: "string list option \<Rightarrow> string list \<Rightarrow> string list option" where
  "mergeGroupTargets g1 [] = g1"
| "mergeGroupTargets g1 (t # ts) =
     mergeGroupTargets (if t \<in> set (elems g1) then g1 else append_slice g1 [t]) ts"

fun mergeConfig_groups :: "(string \<times> Group) list \<Rightarrow> (string \<times> Group) list \<Rightarrow> (string \<times> Group) list" where
  "mergeConfig_groups c1 [] = c1"
| "mergeConfig_groups c1 ((k, g) # rest) =
     mergeConfig_groups
       (case map_of c1 k of
          Some g1 \<Rightarrow>
            AList.update k (g1\<lparr>Targets := mergeGroupTargets (Targets g1) (elems (Targets g))\<rparr>) c1
        | None \<Rightarrow> AList.update k g c1)
       rest"

fun mergeConfig_targets :: "(string \<times> Target) list \<Rightarrow> (string \<times> Target) list \<Rightarrow> (string \<times> Target) list" where
  "mergeConfig_targets c1 [] = c1"
| "mergeConfig_targets c1 ((k, t) # rest) =
     mergeConfig_targets
       (case map_of c1 k of
          Some base \<Rightarrow> AList.update k (merge base t) c1
        | None \<Rightarrow> AList.update k t c1)
       rest"

definition mergeConfig :: "Config \<Rightarrow> Config \<Rightarrow> Config" where
  "mergeConfig c1 c2 =
     \<lparr>Group = mergeConfig_groups (Group c1) (Group c2),
      Target = mergeConfig_targets (Target c1) (Target c2)\<rparr>"

subsection \<open>expandTargets and newOverrides\<close>

fun expandTargets_loop :: "(string \<Rightarrow> string \<Rightarrow> bool option) \<Rightarrow> string \<Rightarrow> string list \<Rightarrow> string list \<Rightarrow> error + string list" where
  "expandTargets_loop M pattern [] names = Inr names"
| "expandTargets_loop M pattern (name # rest) names =
     (case M pattern name of
        None \<Rightarrow> Inl (CouldNotMatchTargets pattern)
      | Some ok \<Rightarrow> expandTargets_loop M pattern rest (if ok then names @ [name] else names))"

definition expandTargets :: "(string \<Rightarrow> string \<Rightarrow> bool option) \<Rightarrow> Config \<Rightarrow> string \<Rightarrow> error + string list" where
  "expandTargets M c pattern =
     (if map_of (Target c) pattern \<noteq> None then Inr [pattern]
      else case expandTargets_loop M pattern (map fst (Target c)) [] of
             Inl e \<Rightarrow> Inl e
           | Inr names \<Rightarrow> if length names = 0 then Inl (NoTargetMatching pattern) else Inr names)"

text \<open>\<open>m[name]\<close> on the override table: the zero value for a missing key.\<close>

definition lookupT :: "(string \<rightharpoonup> Target) \<Rightarrow> string \<Rightarrow> Target" where
  "lookupT m name = (case m name of None \<Rightarrow> zeroTarget | Some t \<Rightarrow> t)"

text \<open>\<open>parts[1]\<close>: an index expression panics when it is out of range.\<close>

definition index1 :: "string list \<Rightarrow> (string \<Rightarrow> error + 'a) \<Rightarrow> error + 'a" where
  "index1 parts f = (if 1 < length parts then f (parts ! 1) else Inl (Panic ''index out of range''))"

text \<open>
  The \<open>switch keys[1]\<close> of \<open>newOverrides\<close>, applied to the entry \<open>t\<close> of one name.
  It runs after the check \<open>len(keys) < 2\<close>, so \<open>keys ! 1\<close> is in range; \<open>keys ! 2\<close>
  is read only behind \<open>len(keys) != 3\<close>.
\<close>

definition setField :: "(string \<rightharpoonup> string) \<Rightarrow> string list \<Rightarrow> string list \<Rightarrow> Target \<Rightarrow> error + Target" where
  "setField env parts keys t =
     (let key = keys ! 1 in
      if key = ''context'' then index1 parts (\<lambda>p. Inr (t\<lparr>Context := Some p\<rparr>))
      else if key = ''dockerfile'' then index1 parts (\<lambda>p. Inr (t\<lparr>Dockerfile := Some p\<rparr>))
      else if key = ''args'' then
        (if length keys \<noteq> 3 then Inl (ArgsRequiresName (parts ! 0))
         else
           (let t = (if Args t = None then t\<lparr>Args := Some Map.empty\<rparr> else t) in
            if length parts < 2 then
              (case env (keys ! 2) of
                 Some v \<Rightarrow> Inr (t\<lparr>Args := Some ((entries (Args t))(keys ! 2 \<mapsto> v))\<rparr>)
               | None \<Rightarrow> Inr t)
            else index1 parts (\<lambda>p. Inr (t\<lparr>Args := Some ((entries (Args t))(keys ! 2 \<mapsto> p))\<rparr>))))
      else if key = ''labels'' then
        (if length keys \<noteq> 3 then Inl (LabelsRequiresName (parts ! 0))
         else
           (let t = (if Labels t = None then t\<lparr>Labels := Some Map.empty\<rparr> else t) in
            index1 parts (\<lambda>p. Inr (t\<lparr>Labels := Some ((entries (Labels t))(keys ! 2 \<mapsto> p))\<rparr>))))
      else if key = ''tags'' then index1 parts (\<lambda>p. Inr (t\<lparr>Tags := append_slice (Tags t) [p]\<rparr>))
      else if key = ''cache-from'' then
        index1 parts (\<lambda>p. Inr (t\<lparr>CacheFrom := append_slice (CacheFrom t) [p]\<rparr>))
      else if key = ''cache-to'' then
        index1 parts (\<lambda>p. Inr (t\<lparr>CacheTo := append_slice (CacheTo t) [p]\<rparr>))
      else if key = ''target'' then index1 parts (\<lambda>p. Inr (t\<lparr>TargetStage := Some p\<rparr>))
      else if key = ''secrets'' then
        index1 parts (\<lambda>p. Inr (t\<lparr>Secrets := append_slice (Secrets t) [p]\<rparr>))
      else if key = ''ssh'' then index1 parts (\<lambda>p. Inr (t\<lparr>SSH := append_slice (SSH t) [p]\<rparr>))
      else if key = ''platform'' then
        index1 parts (\<lambda>p. Inr (t\<lparr>Platforms := append_slice (Platforms t) [p]\<rparr>))
      else if key = ''output'' then
        index1 parts (\<lambda>p. Inr (t\<lparr>Outputs := append_slice (Outputs t) [p]\<rparr>))
      else if key = ''no-cache'' then
        index1 parts (\<lambda>p. case ParseBool p of
                             None \<Rightarrow> Inl (InvalidBoolean p ''no-cache'')
                           | Some noCache \<Rightarrow> Inr (t\<lparr>NoCache := noCache\<rparr>))
      else if key = ''pull'' then
        index1 parts (\<lambda>p. case ParseBool p of
                             None \<Rightarrow> Inl (InvalidBoolean p ''pull'')
                           | Some pull \<Rightarrow> Inr (t\<lparr>Pull := pull\<rparr>))
      else Inl (UnknownKey key))"

text \<open>The loop \<open>for _, name := range names\<close>, with the table \<open>m\<close> as its state.\<close>

fun newOverrides_names :: "(string \<rightharpoonup> string) \<Rightarrow> string list \<Rightarrow> string list \<Rightarrow> string list \<Rightarrow> (string \<rightharpoonup> Target) \<Rightarrow> error + (string \<rightharpoonup> Target)" where
  "newOverrides_names env parts keys [] m = Inr m"
| "newOverrides_names env parts keys (name # names) m =
     (case setField env parts keys (lookupT m name) of
        Inl e \<Rightarrow> Inl e
      | Inr t \<Rightarrow> newOverrides_names env parts keys names (m(name \<mapsto> t)))"

text \<open>The loop \<open>for _, v := range v\<close>.\<close>

fun newOverrides_loop :: "(string \<Rightarrow> string \<Rightarrow> bool option) \<Rightarrow> (string \<rightharpoonup> string) \<Rightarrow> Config \<Rightarrow> string list \<Rightarrow> (string \<rightharpoonup> Target) \<Rightarrow> error + (string \<rightharpoonup> Target)" where
  "newOverrides_loop M env c [] m = Inr m"
| "newOverrides_loop M env c (v # vs) m =
     (let parts = SplitN v (CHR ''='') 2;
          keys = SplitN (parts ! 0) (CHR ''.'') 3
      in if length keys < 2 then Inl (InvalidOverrideKey (parts ! 0))
         else
           (let pattern = keys ! 0 in
            if length parts \<noteq> 2 \<and> keys ! 1 \<noteq> ''args'' then Inl (InvalidOverride v)
            else
              (case expandTargets M c pattern of
                 Inl e \<Rightarrow> Inl e
               | Inr names \<Rightarrow>
                   (case newOverrides_names env parts keys names m of
                      Inl e \<Rightarrow> Inl e
                    | Inr m' \<Rightarrow> newOverrides_loop M env c vs m'))))"

definition newOverrides :: "(string \<Rightarrow> string \<Rightarrow> bool option) \<Rightarrow> (string \<rightharpoonup> string) \<Rightarrow> Config \<Rightarrow> string list \<Rightarrow> error + (string \<rightharpoonup> Target)" where
  "newOverrides M env c v = newOverrides_loop M env c v Map.empty"

subsection \<open>group and ResolveGroup\<close>

text \<open>
  \<open>group\<close> (here \<open>group_names\<close>) shares one \<open>visited\<close> map among its recursive calls,
  like \<open>target\<close> below: the model takes the set and returns it with the names.
  \<open>group_loop\<close> is the loop over \<open>g.Targets\<close> with the accumulator \<open>targets\<close>. The
  result is only ranged over by its caller, so it is a plain list.
\<close>

function group_names :: "Config \<Rightarrow> string \<Rightarrow> string set \<Rightarrow> string set \<times> string list"
  and group_loop :: "Config \<Rightarrow> string list \<Rightarrow> string list \<Rightarrow> string set \<Rightarrow> string set \<times> string list"
where
  "group_names c name visited =
     (if name \<in> visited then (visited, [])
      else
        (case map_of (Group c) name of
           None \<Rightarrow> (visited, [name])
         | Some g \<Rightarrow> group_loop c (elems (Targets g)) [] (insert name visited)))"
| "group_loop c [] targets visited = (visited, targets)"
| "group_loop c (t # ts) targets visited =
     (case group_names c t visited of
        (visited', r) \<Rightarrow> group_loop c ts (targets @ r) visited')"
  by pat_completeness auto

text \<open>The visited set only grows; the recursion is nested, and termination needs that.\<close>

lemma group_visited_mono_dom:
  "group_names_group_loop_dom (Inl (c, name, visited)) \<Longrightarrow>
     visited \<subseteq> fst (group_names c name visited)"
  "group_names_group_loop_dom (Inr (c, ts, targets, visited)) \<Longrightarrow>
     visited \<subseteq> fst (group_loop c ts targets visited)"
proof (induct rule: group_names_group_loop.pinduct)
  case (1 c name visited)
  show ?case
  proof (cases "name \<in> visited")
    case True
    then show ?thesis using 1(1) by (simp add: group_names.psimps)
  next
    case False
    show ?thesis
    proof (cases "map_of (Group c) name")
      case None
      then show ?thesis using False 1(1) by (simp add: group_names.psimps)
    next
      case (Some g)
      from 1(2)[OF False Some] show ?thesis
        using False Some 1(1) by (auto simp add: group_names.psimps)
    qed
  qed
next
  case (2 c targets visited)
  then show ?case by (simp add: group_loop.psimps)
next
  case (3 c t ts targets visited)
  obtain v' r where r: "group_names c t visited = (v', r)" by (cases "group_names c t visited")
  from 3(2) r have "visited \<subseteq> v'" by simp
  moreover from 3(3)[OF r[symmetric]] have "v' \<subseteq> fst (group_loop c ts (targets @ r) v')" .
  ultimately show ?case using r 3(1) by (auto simp add: group_loop.psimps)
qed

termination group_names
proof (relation "inv_image (less_than <*lex*> less_than)
    (\<lambda>x. case x of
       Inl (c, name, visited) \<Rightarrow> (card (set (map fst (Group c)) - visited), 0)
     | Inr (c, ts, targets, visited) \<Rightarrow>
         (card (set (map fst (Group c)) - visited), Suc (length ts)))", goal_cases)
  case 1
  then show ?case by (intro wf_inv_image wf_lex_prod wf_less_than)
next
  case (2 c name visited g)
  have "name \<in> set (map fst (Group c))"
    using 2(2) by (auto dest: map_of_SomeD intro: rev_image_eqI)
  then have "card (set (map fst (Group c)) - insert name visited)
      < card (set (map fst (Group c)) - visited)"
    using 2(1) by (intro psubset_card_mono) auto
  then show ?case by simp
next
  case (3 c t ts targets visited)
  then show ?case by simp
next
  case (4 c t ts targets visited x y)
  from group_visited_mono_dom(1)[OF 4(2)] 4(1) have "visited \<subseteq> x" by (metis fst_conv)
  then have "card (set (map fst (Group c)) - x) \<le> card (set (map fst (Group c)) - visited)"
    by (intro card_mono) auto
  then show ?case by auto
qed

definition ResolveGroup :: "Config \<Rightarrow> string \<Rightarrow> string list" where
  "ResolveGroup c name = snd (group_names c name {})"

subsection \<open>target and ResolveTarget\<close>

text \<open>
  \<open>target\<close> shares one \<open>visited\<close> map among all its recursive calls: the model takes
  the set and returns it with the result. \<open>target_inherits\<close> is the loop over
  \<open>t.Inherits\<close> with the accumulator \<open>tt\<close>. The result \<open>Inr None\<close> is the pair
  \<open>nil, nil\<close> of a revisited name.
\<close>

function target :: "Config \<Rightarrow> string \<Rightarrow> string set \<Rightarrow> (string \<rightharpoonup> Target) \<Rightarrow> string set \<times> (error + Target option)"
  and target_inherits :: "Config \<Rightarrow> string list \<Rightarrow> Target \<Rightarrow> string set \<Rightarrow> (string \<rightharpoonup> Target) \<Rightarrow> string set \<times> (error + Target)"
where
  "target c name visited overrides =
     (if name \<in> visited then (visited, Inr None)
      else
        (case map_of (Target c) name of
           None \<Rightarrow> (insert name visited, Inl (TargetNotFound name))
         | Some t \<Rightarrow>
             (case target_inherits c (elems (Inherits t)) zeroTarget (insert name visited) overrides of
                (visited', Inl e) \<Rightarrow> (visited', Inl e)
              | (visited', Inr tt) \<Rightarrow>
                  (visited',
                   Inr (Some (normalize_Target
                     (merge (merge (merge defaultTarget tt) (t\<lparr>Inherits := None\<rparr>))
                        (lookupT overrides name))))))))"
| "target_inherits c [] tt visited overrides = (visited, Inr tt)"
| "target_inherits c (name # names) tt visited overrides =
     (case target c name visited overrides of
        (visited', Inl e) \<Rightarrow> (visited', Inl e)
      | (visited', Inr None) \<Rightarrow> target_inherits c names tt visited' overrides
      | (visited', Inr (Some t)) \<Rightarrow> target_inherits c names (merge tt t) visited' overrides)"
  by pat_completeness auto

text \<open>
  The recursion is nested: the loop continues with the visited set that the recursive
  call returns. That set only grows, which is what termination needs; it is proved on
  the domain of the function first.
\<close>

lemma target_visited_mono_dom:
  "target_target_inherits_dom (Inl (c, name, visited, ov)) \<Longrightarrow>
     visited \<subseteq> fst (target c name visited ov)"
  "target_target_inherits_dom (Inr (c, names, tt, visited, ov)) \<Longrightarrow>
     visited \<subseteq> fst (target_inherits c names tt visited ov)"
proof (induct rule: target_target_inherits.pinduct)
  case (1 c name visited overrides)
  show ?case
  proof (cases "name \<in> visited")
    case True
    then show ?thesis using 1(1) by (simp add: target.psimps)
  next
    case False
    show ?thesis
    proof (cases "map_of (Target c) name")
      case None
      then show ?thesis using False 1(1) by (auto simp add: target.psimps)
    next
      case (Some t)
      from 1(2)[OF False Some]
      show ?thesis using False Some 1(1)
        by (auto simp add: target.psimps split: prod.splits sum.splits)
    qed
  qed
next
  case (2 c tt visited overrides)
  then show ?case by (simp add: target_inherits.psimps)
next
  case (3 c name names tt visited overrides)
  obtain v' r where r: "target c name visited overrides = (v', r)"
    by (cases "target c name visited overrides")
  from 3(2) r have sub: "visited \<subseteq> v'" by simp
  show ?case
  proof (cases r)
    case (Inl e)
    then show ?thesis using r sub 3(1) by (simp add: target_inherits.psimps)
  next
    case (Inr b)
    show ?thesis
    proof (cases b)
      case None
      from 3(3)[OF r[symmetric] Inr None] sub
      show ?thesis using r Inr None 3(1) by (auto simp add: target_inherits.psimps)
    next
      case (Some t)
      from 3(4)[OF r[symmetric] Inr Some] sub
      show ?thesis using r Inr Some 3(1) by (auto simp add: target_inherits.psimps)
    qed
  qed
qed

text \<open>
  The measure: the number of target names of the config that are not visited yet,
  then the length of the rest of the inherits list.
\<close>

termination target
proof (relation "inv_image (less_than <*lex*> less_than)
    (\<lambda>x. case x of
       Inl (c, name, visited, ov) \<Rightarrow> (card (set (map fst (Target c)) - visited), 0)
     | Inr (c, names, tt, visited, ov) \<Rightarrow>
         (card (set (map fst (Target c)) - visited), Suc (length names)))", goal_cases)
  case 1
  then show ?case by (intro wf_inv_image wf_lex_prod wf_less_than)
next
  case (2 c name visited overrides t)
  have "name \<in> set (map fst (Target c))"
    using 2(2) by (auto dest: map_of_SomeD intro: rev_image_eqI)
  then have "card (set (map fst (Target c)) - insert name visited)
      < card (set (map fst (Target c)) - visited)"
    using 2(1) by (intro psubset_card_mono) auto
  then show ?case by simp
next
  case (3 c name names tt visited overrides)
  then show ?case by simp
next
  case (4 c name names tt visited overrides x y b)
  from target_visited_mono_dom(1)[OF 4(4)] 4(1) have "visited \<subseteq> x" by (metis fst_conv)
  then have "card (set (map fst (Target c)) - x) \<le> card (set (map fst (Target c)) - visited)"
    by (intro card_mono) auto
  then show ?case by auto
next
  case (5 c name names tt visited overrides x y b t)
  from target_visited_mono_dom(1)[OF 5(4)] 5(1) have "visited \<subseteq> x" by (metis fst_conv)
  then have "card (set (map fst (Target c)) - x) \<le> card (set (map fst (Target c)) - visited)"
    by (intro card_mono) auto
  then show ?case by auto
qed

text \<open>
  \<open>ResolveTarget\<close> dereferences the pointer that \<open>target\<close> returns; on \<open>nil, nil\<close>
  that is a panic.
\<close>

definition ResolveTarget :: "Config \<Rightarrow> string \<Rightarrow> (string \<rightharpoonup> Target) \<Rightarrow> error + Target" where
  "ResolveTarget c name overrides =
     (case target c name {} overrides of
        (visited, Inl e) \<Rightarrow> Inl e
      | (visited, Inr None) \<Rightarrow> Inl (Panic ''nil pointer dereference'')
      | (visited, Inr (Some t)) \<Rightarrow>
          Inr (t\<lparr>Context := (if Context t = None then Some ''.'' else Context t),
                 Dockerfile := (if Dockerfile t = None then Some ''Dockerfile''
                                else Dockerfile t)\<rparr>))"

subsection \<open>First occurrences\<close>

text \<open>
  The list that the normaliser is meant to return, written directly: the elements of
  \<open>ys\<close> that are neither in \<open>seen\<close> nor earlier in \<open>ys\<close>, in their order.
\<close>

fun first_occurrences :: "string set \<Rightarrow> string list \<Rightarrow> string list" where
  "first_occurrences seen [] = []"
| "first_occurrences seen (y # ys) =
     (if y \<in> seen then first_occurrences seen ys else y # first_occurrences (insert y seen) ys)"

subsection \<open>Fields that are never set\<close>

text \<open>
  Field \<open>F\<close> is set nowhere in \<open>chain\<close>: no target of the config with a name in
  \<open>chain\<close> declares it, and no entry of the override table for such a name sets it.
\<close>

definition never_set :: "(Target \<Rightarrow> 'a option) \<Rightarrow> Config \<Rightarrow> (string \<rightharpoonup> Target) \<Rightarrow> string set \<Rightarrow> bool" where
  "never_set F c ov chain =
     (\<forall>n \<in> chain. (case map_of (Target c) n of None \<Rightarrow> True | Some t \<Rightarrow> F t = None) \<and>
        F (lookupT ov n) = None)"

section \<open>The same code with backing arrays\<close>

text \<open>
  A Go slice is a header (pointer, length, capacity) over a backing array, and copying
  a \<open>Target\<close> copies the headers, not the arrays. The definitions above denote a slice
  by its elements, which is what a caller reads off a result. To see what resolution
  does to the memory that the \<open>Config\<close> and the override table point to, this section
  repeats \<open>merge\<close>, \<open>removeDupes\<close>, \<open>normalize\<close>, \<open>target\<close> and \<open>ResolveTarget\<close> over an
  explicit store of arrays.

  \<^item> The store is the list of the arrays allocated so far; an address is an index into
    it, and allocation appends an array. A slice header always points to an array of
    the store (Go has no dangling slices).
  \<^item> A non-nil slice is a header \<open>slice\<close>; every slice of this code starts at index 0 of
    its array (the code reslices only as \<open>s[:i]\<close>), so the header has no offset.
  \<^item> \<open>append\<close> writes in place when the capacity suffices and allocates otherwise. The
    capacity of a fresh array is up to the Go runtime; the model takes the needed
    length.
  \<^item> The two maps of a \<open>Target\<close> stay values here: \<open>merge\<close> stores only into the map of
    its first argument, and \<open>target\<close> calls it with a first argument that descends from
    the zero target, whose maps \<open>merge\<close> makes itself.
\<close>

type_synonym store = "string list list"

record slice =
  array :: nat
  len :: nat
  cap :: nat

record Target_s =
  Inherits_s :: "slice option"
  Context_s :: "string option"
  Dockerfile_s :: "string option"
  Args_s :: "(string \<rightharpoonup> string) option"
  Labels_s :: "(string \<rightharpoonup> string) option"
  Tags_s :: "slice option"
  CacheFrom_s :: "slice option"
  CacheTo_s :: "slice option"
  TargetStage_s :: "string option"
  Secrets_s :: "slice option"
  SSH_s :: "slice option"
  Platforms_s :: "slice option"
  Outputs_s :: "slice option"
  Pull_s :: bool
  NoCache_s :: bool

definition zeroTarget_s :: Target_s where
  "zeroTarget_s = \<lparr>Inherits_s = None, Context_s = None, Dockerfile_s = None, Args_s = None,
     Labels_s = None, Tags_s = None, CacheFrom_s = None, CacheTo_s = None,
     TargetStage_s = None, Secrets_s = None, SSH_s = None, Platforms_s = None,
     Outputs_s = None, Pull_s = False, NoCache_s = False\<rparr>"

text \<open>The elements that a slice shows in a store.\<close>

definition contents :: "store \<Rightarrow> slice option \<Rightarrow> string list" where
  "contents st s = (case s of None \<Rightarrow> [] | Some sl \<Rightarrow> take (len sl) (st ! array sl))"

definition append_store :: "store \<Rightarrow> slice option \<Rightarrow> string list \<Rightarrow> store \<times> slice option" where
  "append_store st s ys =
     (if ys = [] then (st, s)
      else
        (case s of
           None \<Rightarrow> (st @ [ys], Some \<lparr>array = length st, len = length ys, cap = length ys\<rparr>)
         | Some sl \<Rightarrow>
             if len sl + length ys \<le> cap sl
             then (st[array sl := take (len sl) (st ! array sl) @ ys @
                      drop (len sl + length ys) (st ! array sl)],
                   Some (sl\<lparr>len := len sl + length ys\<rparr>))
             else (st @ [take (len sl) (st ! array sl) @ ys],
                   Some \<lparr>array = length st, len = len sl + length ys,
                     cap = len sl + length ys\<rparr>)))"

text \<open>
  \<open>removeDupes\<close> runs the loop of the source over the \<open>len\<close> elements of the slice, in
  the backing array itself, and returns the header with the new length.
\<close>

definition removeDupes_store :: "store \<Rightarrow> slice option \<Rightarrow> store \<times> slice option" where
  "removeDupes_store st s =
     (case s of
        None \<Rightarrow> (st, None)
      | Some sl \<Rightarrow>
          (case removeDupes_loop (take (len sl) (st ! array sl)) 0 0 {} of
             (a, i) \<Rightarrow> (st[array sl := a @ drop (len sl) (st ! array sl)], Some (sl\<lparr>len := i\<rparr>))))"

definition normalize_store :: "store \<Rightarrow> Target_s \<Rightarrow> store \<times> Target_s" where
  "normalize_store st t =
     (case removeDupes_store st (Tags_s t) of (st, tags) \<Rightarrow>
      case removeDupes_store st (Secrets_s t) of (st, secrets) \<Rightarrow>
      case removeDupes_store st (SSH_s t) of (st, ssh) \<Rightarrow>
      case removeDupes_store st (Platforms_s t) of (st, platforms) \<Rightarrow>
      case removeDupes_store st (CacheFrom_s t) of (st, cacheFrom) \<Rightarrow>
      case removeDupes_store st (CacheTo_s t) of (st, cacheTo) \<Rightarrow>
      case removeDupes_store st (Outputs_s t) of (st, outputs) \<Rightarrow>
        (st, t\<lparr>Tags_s := tags, Secrets_s := secrets, SSH_s := ssh, Platforms_s := platforms,
               CacheFrom_s := cacheFrom, CacheTo_s := cacheTo, Outputs_s := outputs\<rparr>))"

text \<open>
  \<open>merge\<close>: the four appends (secrets, ssh, cache-from, inherits) act on the store, in
  the order of the source; the other fields copy a header or a value.
\<close>

definition merge_store :: "store \<Rightarrow> Target_s \<Rightarrow> Target_s \<Rightarrow> store \<times> Target_s" where
  "merge_store st t1 t2 =
     (case (if Secrets_s t2 \<noteq> None
            then append_store st (Secrets_s t1) (contents st (Secrets_s t2))
            else (st, Secrets_s t1)) of (st, secrets) \<Rightarrow>
      case (if SSH_s t2 \<noteq> None
            then append_store st (SSH_s t1) (contents st (SSH_s t2))
            else (st, SSH_s t1)) of (st, ssh) \<Rightarrow>
      case (if CacheFrom_s t2 \<noteq> None
            then append_store st (CacheFrom_s t1) (contents st (CacheFrom_s t2))
            else (st, CacheFrom_s t1)) of (st, cacheFrom) \<Rightarrow>
      case append_store st (Inherits_s t1) (contents st (Inherits_s t2)) of (st, inherits) \<Rightarrow>
        (st, t1
          \<lparr>Context_s := (if Context_s t2 \<noteq> None then Context_s t2 else Context_s t1),
           Dockerfile_s := (if Dockerfile_s t2 \<noteq> None then Dockerfile_s t2 else Dockerfile_s t1),
           Args_s := mergeMap (Args_s t1) (Args_s t2),
           Labels_s := mergeMap (Labels_s t1) (Labels_s t2),
           Tags_s := (if Tags_s t2 \<noteq> None then Tags_s t2 else Tags_s t1),
           TargetStage_s :=
             (if TargetStage_s t2 \<noteq> None then TargetStage_s t2 else TargetStage_s t1),
           Secrets_s := secrets,
           SSH_s := ssh,
           Platforms_s := (if Platforms_s t2 \<noteq> None then Platforms_s t2 else Platforms_s t1),
           CacheFrom_s := cacheFrom,
           CacheTo_s := (if CacheTo_s t2 \<noteq> None then CacheTo_s t2 else CacheTo_s t1),
           Outputs_s := (if Outputs_s t2 \<noteq> None then Outputs_s t2 else Outputs_s t1),
           Inherits_s := inherits\<rparr>))"

definition lookupT_s :: "(string \<rightharpoonup> Target_s) \<Rightarrow> string \<Rightarrow> Target_s" where
  "lookupT_s m name = (case m name of None \<Rightarrow> zeroTarget_s | Some t \<Rightarrow> t)"

text \<open>
  The last statements of \<open>target\<close>: the three merges and \<open>normalize\<close>, threading the
  store.
\<close>

definition finish_store :: "store \<Rightarrow> Target_s \<Rightarrow> Target_s \<Rightarrow> Target_s \<Rightarrow> store \<times> Target_s" where
  "finish_store st tt t ov =
     (case merge_store st zeroTarget_s tt of (st, m1) \<Rightarrow>
      case merge_store st m1 (t\<lparr>Inherits_s := None\<rparr>) of (st, m2) \<Rightarrow>
      case merge_store st m2 ov of (st, m3) \<Rightarrow>
        normalize_store st m3)"

text \<open>
  \<open>target\<close> over the store. The targets of the config are an association list, as
  before (\<open>target\<close> does not read the groups). The loop over \<open>t.Inherits\<close> keeps the
  header it started with and reads element \<open>i\<close> from the store as it stands in that
  iteration, as \<open>range\<close> does.
\<close>

function target_store :: "(string \<times> Target_s) list \<Rightarrow> string \<Rightarrow> store \<Rightarrow> string set \<Rightarrow> (string \<rightharpoonup> Target_s) \<Rightarrow> store \<times> string set \<times> (error + Target_s option)"
  and target_inherits_store :: "(string \<times> Target_s) list \<Rightarrow> slice option \<Rightarrow> nat \<Rightarrow> Target_s \<Rightarrow> store \<Rightarrow> string set \<Rightarrow> (string \<rightharpoonup> Target_s) \<Rightarrow> store \<times> string set \<times> (error + Target_s)"
where
  "target_store c name st visited overrides =
     (if name \<in> visited then (st, visited, Inr None)
      else
        (case map_of c name of
           None \<Rightarrow> (st, insert name visited, Inl (TargetNotFound name))
         | Some t \<Rightarrow>
             (case target_inherits_store c (Inherits_s t) 0 zeroTarget_s st (insert name visited)
                     overrides of
                (st', visited', Inl e) \<Rightarrow> (st', visited', Inl e)
              | (st', visited', Inr tt) \<Rightarrow>
                  (case finish_store st' tt t (lookupT_s overrides name) of
                     (st'', r) \<Rightarrow> (st'', visited', Inr (Some r))))))"
| "target_inherits_store c s i tt st visited overrides =
     (case s of
        None \<Rightarrow> (st, visited, Inr tt)
      | Some sl \<Rightarrow>
          if i < len sl then
            (case target_store c (st ! array sl ! i) st visited overrides of
               (st', visited', Inl e) \<Rightarrow> (st', visited', Inl e)
             | (st', visited', Inr None) \<Rightarrow>
                 target_inherits_store c s (i + 1) tt st' visited' overrides
             | (st', visited', Inr (Some t)) \<Rightarrow>
                 (case merge_store st' tt t of
                    (st'', tt') \<Rightarrow>
                      target_inherits_store c s (i + 1) tt' st'' visited' overrides))
          else (st, visited, Inr tt))"
  by pat_completeness auto

text \<open>Termination, as for \<open>target\<close>: the visited set only grows.\<close>

lemma target_store_visited_mono_dom:
  "target_store_target_inherits_store_dom (Inl (c, name, st, visited, ov)) \<Longrightarrow>
     visited \<subseteq> fst (snd (target_store c name st visited ov))"
  "target_store_target_inherits_store_dom (Inr (c, s, i, tt, st, visited, ov)) \<Longrightarrow>
     visited \<subseteq> fst (snd (target_inherits_store c s i tt st visited ov))"
proof (induct rule: target_store_target_inherits_store.pinduct)
  case (1 c name st visited overrides)
  show ?case
  proof (cases "name \<in> visited")
    case True
    then show ?thesis using 1(1) by (simp add: target_store.psimps)
  next
    case False
    show ?thesis
    proof (cases "map_of c name")
      case None
      then show ?thesis using False 1(1) by (auto simp add: target_store.psimps)
    next
      case (Some t)
      from 1(2)[OF False Some]
      show ?thesis using False Some 1(1)
        by (auto simp add: target_store.psimps split: prod.splits sum.splits)
    qed
  qed
next
  case (2 c s i tt st visited overrides)
  note unf = target_inherits_store.psimps[OF 2(1)]
  show ?case
  proof (cases s)
    case None
    then show ?thesis unfolding unf by simp
  next
    case (Some sl)
    show ?thesis
    proof (cases "i < len sl")
      case False
      then show ?thesis unfolding unf using Some by simp
    next
      case True
      obtain st' v' r where r: "target_store c (st ! array sl ! i) st visited overrides = (st', v', r)"
        by (cases "target_store c (st ! array sl ! i) st visited overrides")
      from 2(2)[OF Some True] r have sub: "visited \<subseteq> v'" by simp
      show ?thesis
      proof (cases r)
        case (Inl e)
        then show ?thesis unfolding unf using r sub Some True by simp
      next
        case (Inr b)
        show ?thesis
        proof (cases b)
          case None
          from 2(3)[OF Some True r[symmetric] refl Inr None] sub
          show ?thesis unfolding unf using r Inr None Some True by auto
        next
          case (Some t)
          obtain st'' tt' where m: "merge_store st' tt t = (st'', tt')"
            by (cases "merge_store st' tt t")
          from 2(4)[OF \<open>s = Some sl\<close> True r[symmetric] refl Inr Some m[symmetric]] sub
          show ?thesis unfolding unf using r Inr Some \<open>s = Some sl\<close> True m by auto
        qed
      qed
    qed
  qed
qed

termination target_store
proof (relation "inv_image (less_than <*lex*> less_than)
    (\<lambda>x. case x of
       Inl (c, name, st, visited, ov) \<Rightarrow> (card (set (map fst c) - visited), 0)
     | Inr (c, s, i, tt, st, visited, ov) \<Rightarrow>
         (card (set (map fst c) - visited),
          Suc ((case s of None \<Rightarrow> 0 | Some sl \<Rightarrow> len sl) - i)))", goal_cases)
  case 1
  then show ?case by (intro wf_inv_image wf_lex_prod wf_less_than)
next
  case (2 c name st visited overrides t)
  have "name \<in> set (map fst c)"
    using 2(2) by (auto dest: map_of_SomeD intro: rev_image_eqI)
  then have "card (set (map fst c) - insert name visited) < card (set (map fst c) - visited)"
    using 2(1) by (intro psubset_card_mono) auto
  then show ?case by simp
next
  case (3 c s i tt st visited overrides sl)
  then show ?case by simp
next
  case (4 c s i tt st visited overrides sl x y xa ya b)
  from target_store_visited_mono_dom(1)[OF 4(7)] 4(3,4) have "visited \<subseteq> xa"
    by (metis fst_conv snd_conv)
  then have "card (set (map fst c) - xa) \<le> card (set (map fst c) - visited)"
    by (intro card_mono) auto
  then show ?case using 4(1,2) by auto
next
  case (5 c s i tt st visited overrides sl x y xa ya b t xb yb)
  from target_store_visited_mono_dom(1)[OF 5(8)] 5(3,4) have "visited \<subseteq> xa"
    by (metis fst_conv snd_conv)
  then have "card (set (map fst c) - xa) \<le> card (set (map fst c) - visited)"
    by (intro card_mono) auto
  then show ?case using 5(1,2) by auto
qed


definition ResolveTarget_store :: "(string \<times> Target_s) list \<Rightarrow> string \<Rightarrow> store \<Rightarrow> (string \<rightharpoonup> Target_s) \<Rightarrow> store \<times> (error + Target_s)" where
  "ResolveTarget_store c name st overrides =
     (case target_store c name st {} overrides of
        (st', visited, Inl e) \<Rightarrow> (st', Inl e)
      | (st', visited, Inr None) \<Rightarrow> (st', Inl (Panic ''nil pointer dereference''))
      | (st', visited, Inr (Some t)) \<Rightarrow>
          (st',
           Inr (t\<lparr>Context_s := (if Context_s t = None then Some ''.'' else Context_s t),
                  Dockerfile_s := (if Dockerfile_s t = None then Some ''Dockerfile''
                                   else Dockerfile_s t)\<rparr>)))"

text \<open>
  What a target of the store-level config denotes in a store: the \<open>Target\<close> of the first
  part, each slice replaced by its elements.
\<close>

definition denote_slice :: "store \<Rightarrow> slice option \<Rightarrow> string list option" where
  "denote_slice st s = (case s of None \<Rightarrow> None | Some sl \<Rightarrow> Some (contents st s))"

definition denote :: "store \<Rightarrow> Target_s \<Rightarrow> Target" where
  "denote st t =
     \<lparr>Inherits = denote_slice st (Inherits_s t), Context = Context_s t,
      Dockerfile = Dockerfile_s t, Args = Args_s t, Labels = Labels_s t,
      Tags = denote_slice st (Tags_s t), CacheFrom = denote_slice st (CacheFrom_s t),
      CacheTo = denote_slice st (CacheTo_s t), TargetStage = TargetStage_s t,
      Secrets = denote_slice st (Secrets_s t), SSH = denote_slice st (SSH_s t),
      Platforms = denote_slice st (Platforms_s t), Outputs = denote_slice st (Outputs_s t),
      Pull = Pull_s t, NoCache = NoCache_s t\<rparr>"

section \<open>Example configurations\<close>

text \<open>
  The configuration of \<open>TestReadTargets\<close>: target \<open>webDEP\<close> with two build
  arguments, and target \<open>webapp\<close>, which inherits \<open>webDEP\<close>, names its own dockerfile
  and sets one of the two arguments again.
\<close>

definition test_config :: Config where
  "test_config =
     \<lparr>Group = [],
      Target =
        [(''webDEP'',
          zeroTarget\<lparr>Args := Some [''VAR_INHERITED'' \<mapsto> ''webDEP'', ''VAR_BOTH'' \<mapsto> ''webDEP'']\<rparr>),
         (''webapp'',
          zeroTarget\<lparr>Inherits := Some [''webDEP''], Dockerfile := Some ''Dockerfile.webapp'',
            Args := Some [''VAR_BOTH'' \<mapsto> ''webapp'']\<rparr>)]\<rparr>"

text \<open>
  Two configurations in the shape of the two files of \<open>TestReadTargetsCompose\<close>:
  both declare \<open>webapp\<close>, the second one with a further build argument.
\<close>

definition compose_config1 :: Config where
  "compose_config1 =
     \<lparr>Group = [(''default'', \<lparr>Targets = Some [''db'', ''webapp'']\<rparr>)],
      Target =
        [(''db'', zeroTarget\<lparr>Context := Some ''.'', Tags := Some [''docker.io/tonistiigi/db'']\<rparr>),
         (''webapp'',
          zeroTarget\<lparr>Dockerfile := Some ''Dockerfile.webapp'', Args := Some [''buildno'' \<mapsto> ''1'']\<rparr>)]\<rparr>"

definition compose_config2 :: Config where
  "compose_config2 =
     \<lparr>Group = [(''default'', \<lparr>Targets = Some [''newservice'', ''webapp'']\<rparr>)],
      Target =
        [(''newservice'', zeroTarget\<lparr>Context := Some ''.''\<rparr>),
         (''webapp'', zeroTarget\<lparr>Args := Some [''buildno2'' \<mapsto> ''12'']\<rparr>)]\<rparr>"

text \<open>Two targets that inherit each other.\<close>

definition cyclic_config :: Config where
  "cyclic_config =
     \<lparr>Group = [],
      Target =
        [(''a'', zeroTarget\<lparr>Inherits := Some [''b''], Tags := Some [''ta'']\<rparr>),
         (''b'', zeroTarget\<lparr>Inherits := Some [''a''], Dockerfile := Some ''Dockerfile.b''\<rparr>)]\<rparr>"

text \<open>
  A stand-in for \<open>path.Match\<close> on the patterns of the tests: \<open>web*\<close> and
  \<open>nomatch*\<close> match the names with that prefix, \<open>[\<close> is malformed, and a pattern
  without metacharacters matches itself.
\<close>

definition test_Match :: "string \<Rightarrow> string \<Rightarrow> bool option" where
  "test_Match pattern name =
     (if pattern = ''web*'' then Some (take 3 name = ''web'')
      else if pattern = ''nomatch*'' then Some (take 7 name = ''nomatch'')
      else if pattern = ''['' then None
      else Some (pattern = name))"

text \<open>A target with two parents, of which only the first names a context and a dockerfile.\<close>

text \<open>A process environment without variables.\<close>

definition empty_env :: "string \<rightharpoonup> string" where
  "empty_env = Map.empty"

definition two_parents_config :: Config where
  "two_parents_config =
     \<lparr>Group = [],
      Target =
        [(''child'', zeroTarget\<lparr>Inherits := Some [''p1'', ''p2'']\<rparr>),
         (''p1'', zeroTarget\<lparr>Context := Some ''ctx1'', Dockerfile := Some ''Dockerfile.p1''\<rparr>),
         (''p2'', zeroTarget\<lparr>Tags := Some [''t2'']\<rparr>)]\<rparr>"

text \<open>
  A config with one target whose tags hold a duplicate, as the parser leaves it in
  memory: the store holds the array of the three tags, and the target's \<open>Tags\<close> is a
  header over it.
\<close>

definition dup_store :: store where
  "dup_store = [[''a'', ''a'', ''b'']]"

definition dup_target :: Target_s where
  "dup_target = zeroTarget_s\<lparr>Tags_s := Some \<lparr>array = 0, len = 3, cap = 3\<rparr>\<rparr>"

definition dup_config :: "(string \<times> Target_s) list" where
  "dup_config = [(''t'', dup_target)]"

text \<open>Two groups that contain each other.\<close>

definition cyclic_groups :: Config where
  "cyclic_groups =
     \<lparr>Group =
        [(''g'', \<lparr>Targets = Some [''h'', ''x'']\<rparr>), (''h'', \<lparr>Targets = Some [''g'', ''y'']\<rparr>)],
      Target = []\<rparr>"

section \<open>Properties\<close>

subsection \<open>removeDupes\<close>

declare removeDupes_loop.simps [simp del]

lemma removeDupes_loop_spec:
  "i \<le> j \<Longrightarrow> j \<le> length s \<Longrightarrow>
   removeDupes_loop s j i seen =
     (take i s @ first_occurrences seen (drop j s) @ drop (i + length (first_occurrences seen (drop j s))) s,
      i + length (first_occurrences seen (drop j s)))"
proof (induction s j i seen rule: removeDupes_loop.induct)
  case (1 s j i seen)
  note unf = removeDupes_loop.simps[of s j i seen]
  show ?case
  proof (cases "j < length s")
    case False
    then have "j = length s" using 1(4) by simp
    then show ?thesis using 1(3) unf by simp
  next
    case True
    then have dj: "drop j s = s ! j # drop (Suc j) s" by (simp add: Cons_nth_drop_Suc)
    show ?thesis
    proof (cases "s ! j \<in> seen")
      case in_seen: True
      from 1(1)[OF True refl in_seen] 1(3) True
      show ?thesis using True in_seen dj
        by (simp add: unf)
    next
      case not_seen: False
      let ?s' = "s[i := s ! j]"
      have ih: "removeDupes_loop ?s' (j + 1) (i + 1) (insert (s ! j) seen) =
        (take (i + 1) ?s' @ first_occurrences (insert (s ! j) seen) (drop (j + 1) ?s') @
           drop (i + 1 + length (first_occurrences (insert (s ! j) seen) (drop (j + 1) ?s'))) ?s',
         i + 1 + length (first_occurrences (insert (s ! j) seen) (drop (j + 1) ?s')))"
        using 1(2)[OF True refl not_seen] 1(3) True by simp
      have d: "drop (Suc j) ?s' = drop (Suc j) s" using 1(3) by simp
      have t: "take (Suc i) ?s' = take i s @ [s ! j]"
        using 1(3) True by (simp add: take_Suc_conv_app_nth)
      have d2: "drop (Suc (i + n)) ?s' = drop (Suc (i + n)) s" for n by simp
      show ?thesis
        using True not_seen dj ih
        by (simp add: unf d t d2 Let_def)
    qed
  qed
qed


lemma set_first_occurrences: "set (first_occurrences seen ys) = set ys - seen"
  by (induction ys arbitrary: seen) auto

lemma distinct_first_occurrences: "distinct (first_occurrences seen ys)"
  by (induction ys arbitrary: seen) (auto simp: set_first_occurrences)

lemma subseq_first_occurrences: "subseq (first_occurrences seen ys) ys"
  by (induction ys arbitrary: seen) auto

lemma first_occurrences_id: "distinct ys \<Longrightarrow> set ys \<inter> seen = {} \<Longrightarrow> first_occurrences seen ys = ys"
  by (induction ys arbitrary: seen) auto

lemma first_occurrences_index:
  "first_occurrences seen ys =
     map (\<lambda>k. ys ! k) (filter (\<lambda>k. ys ! k \<notin> seen \<union> set (take k ys)) [0..<length ys])"
proof (induction ys arbitrary: seen)
  case Nil
  then show ?case by simp
next
  case (Cons y ys)
  have upt: "[0..<Suc (length ys)] = 0 # map Suc [0..<length ys]"
    by (simp add: upt_conv_Cons map_Suc_upt del: upt_Suc)
  show ?case
  proof (cases "y \<in> seen")
    case True
    then have "(\<lambda>x. ys ! x \<notin> seen \<and> ys ! x \<noteq> y \<and> ys ! x \<notin> set (take x ys)) =
        (\<lambda>x. ys ! x \<notin> seen \<and> ys ! x \<notin> set (take x ys))" by auto
    then show ?thesis using True Cons[of seen]
      by (simp add: upt filter_map o_def del: upt_Suc)
  next
    case False
    have "(\<lambda>k. ys ! k \<noteq> y \<and> ys ! k \<notin> seen \<and> ys ! k \<notin> set (take k ys)) =
        (\<lambda>x. ys ! x \<notin> seen \<and> ys ! x \<noteq> y \<and> ys ! x \<notin> set (take x ys))" by auto
    then show ?thesis using False Cons[of "insert y seen"]
      by (simp add: upt filter_map o_def del: upt_Suc)
  qed
qed

lemma removeDupes_first_occurrences: "removeDupes (Some xs) = Some (first_occurrences {} xs)"
  using removeDupes_loop_spec[of 0 0 xs "{}"] by (simp add: removeDupes_def)

lemma removeDupes_idem: "removeDupes (removeDupes s) = removeDupes s"
  by (cases s) (simp_all add: removeDupes_first_occurrences removeDupes_def[of None] first_occurrences_id distinct_first_occurrences)

lemma normalize_idem: "normalize_Target (normalize_Target t) = normalize_Target t"
  by (simp add: normalize_Target_def Let_def removeDupes_idem)


subsection \<open>Fields of a merged and of a normalised target\<close>

lemma merge_fields:
  "Context (merge t1 t2) = (if Context t2 \<noteq> None then Context t2 else Context t1)"
  "Dockerfile (merge t1 t2) = (if Dockerfile t2 \<noteq> None then Dockerfile t2 else Dockerfile t1)"
  "Args (merge t1 t2) = mergeMap (Args t1) (Args t2)"
  "Labels (merge t1 t2) = mergeMap (Labels t1) (Labels t2)"
  "Tags (merge t1 t2) = (if Tags t2 \<noteq> None then Tags t2 else Tags t1)"
  "TargetStage (merge t1 t2) = (if TargetStage t2 \<noteq> None then TargetStage t2 else TargetStage t1)"
  "Secrets (merge t1 t2) =
     (if Secrets t2 \<noteq> None then append_slice (Secrets t1) (elems (Secrets t2)) else Secrets t1)"
  "SSH (merge t1 t2) = (if SSH t2 \<noteq> None then append_slice (SSH t1) (elems (SSH t2)) else SSH t1)"
  "Platforms (merge t1 t2) = (if Platforms t2 \<noteq> None then Platforms t2 else Platforms t1)"
  "CacheFrom (merge t1 t2) =
     (if CacheFrom t2 \<noteq> None then append_slice (CacheFrom t1) (elems (CacheFrom t2))
      else CacheFrom t1)"
  "CacheTo (merge t1 t2) = (if CacheTo t2 \<noteq> None then CacheTo t2 else CacheTo t1)"
  "Outputs (merge t1 t2) = (if Outputs t2 \<noteq> None then Outputs t2 else Outputs t1)"
  "Inherits (merge t1 t2) = append_slice (Inherits t1) (elems (Inherits t2))"
  "Pull (merge t1 t2) = Pull t1"
  "NoCache (merge t1 t2) = NoCache t1"
  by (simp_all add: merge_def)

lemma normalize_fields:
  "Context (normalize_Target t) = Context t"
  "Dockerfile (normalize_Target t) = Dockerfile t"
  "Args (normalize_Target t) = Args t"
  "Labels (normalize_Target t) = Labels t"
  "Tags (normalize_Target t) = removeDupes (Tags t)"
  "TargetStage (normalize_Target t) = TargetStage t"
  "Secrets (normalize_Target t) = removeDupes (Secrets t)"
  "SSH (normalize_Target t) = removeDupes (SSH t)"
  "Platforms (normalize_Target t) = removeDupes (Platforms t)"
  "CacheFrom (normalize_Target t) = removeDupes (CacheFrom t)"
  "CacheTo (normalize_Target t) = removeDupes (CacheTo t)"
  "Outputs (normalize_Target t) = removeDupes (Outputs t)"
  "Inherits (normalize_Target t) = Inherits t"
  "Pull (normalize_Target t) = Pull t"
  "NoCache (normalize_Target t) = NoCache t"
  by (simp_all add: normalize_Target_def)

lemma zeroTarget_fields:
  "Context zeroTarget = None" "Dockerfile zeroTarget = None" "Args zeroTarget = None"
  "Labels zeroTarget = None" "Tags zeroTarget = None" "TargetStage zeroTarget = None"
  "Secrets zeroTarget = None" "SSH zeroTarget = None" "Platforms zeroTarget = None"
  "CacheFrom zeroTarget = None" "CacheTo zeroTarget = None" "Outputs zeroTarget = None"
  "Inherits zeroTarget = None" "Pull zeroTarget = False" "NoCache zeroTarget = False"
  by (simp_all add: zeroTarget_def)

lemma removeDupes_None [simp]: "removeDupes None = None"
  by (simp add: removeDupes_def)

lemma removeDupes_eq_None [simp]: "removeDupes s = None \<longleftrightarrow> s = None"
  by (cases s) (simp_all add: removeDupes_first_occurrences)

lemma append_slice_None [simp]: "append_slice None [] = None"
  by (simp add: append_slice_def)

lemma elems_simps [simp]: "elems None = []" "elems (Some xs) = xs"
  by (simp_all add: elems_def)

lemma entries_simps [simp]: "entries None = Map.empty" "entries (Some f) = f"
  by (simp_all add: entries_def)

subsection \<open>The recursion of target\<close>

declare target.simps [simp del]

lemma target_Some_iff:
  "target c name visited ov = (v', Inr (Some t)) \<longleftrightarrow>
     name \<notin> visited \<and>
     (\<exists>t0 tt. map_of (Target c) name = Some t0 \<and>
        target_inherits c (elems (Inherits t0)) zeroTarget (insert name visited) ov = (v', Inr tt) \<and>
        t = normalize_Target (merge (merge (merge defaultTarget tt) (t0\<lparr>Inherits := None\<rparr>))
                (lookupT ov name)))"
proof (cases "name \<in> visited")
  case True
  then show ?thesis by (simp add: target.simps[of c name visited ov])
next
  case False
  show ?thesis
  proof (cases "map_of (Target c) name")
    case None
    then show ?thesis using False by (simp add: target.simps[of c name visited ov])
  next
    case (Some t0)
    obtain w r where wr: "target_inherits c (elems (Inherits t0)) zeroTarget (insert name visited) ov = (w, r)"
      by (cases "target_inherits c (elems (Inherits t0)) zeroTarget (insert name visited) ov")
    show ?thesis
    proof (cases r)
      case (Inl e)
      then show ?thesis using False Some wr by (simp add: target.simps[of c name visited ov])
    next
      case (Inr tt)
      then show ?thesis using False Some wr
        by (auto simp add: target.simps[of c name visited ov])
    qed
  qed
qed

lemma target_inherits_Cons:
  "target_inherits c (name # names) tt visited ov =
     (case target c name visited ov of
        (visited', Inl e) \<Rightarrow> (visited', Inl e)
      | (visited', Inr b) \<Rightarrow>
          target_inherits c names (case b of None \<Rightarrow> tt | Some t \<Rightarrow> merge tt t) visited' ov)"
  by (simp split: prod.splits sum.splits option.splits)

declare target_inherits.simps(2) [simp del]

lemma target_visited_mono:
  "visited \<subseteq> fst (target c name visited ov)"
  "visited \<subseteq> fst (target_inherits c names tt visited ov)"
proof (induction c name visited ov and c names tt visited ov rule: target_target_inherits.induct)
  case (1 c name visited overrides)
  show ?case
  proof (cases "name \<in> visited")
    case True
    then show ?thesis by (simp add: target.simps[of c name])
  next
    case False
    show ?thesis
    proof (cases "map_of (Target c) name")
      case None
      then show ?thesis using False by (auto simp add: target.simps[of c name])
    next
      case (Some t)
      from 1[OF False Some]
      show ?thesis using False Some
        by (auto simp add: target.simps[of c name] split: prod.splits sum.splits)
    qed
  qed
next
  case (2 c tt visited overrides)
  then show ?case by simp
next
  case (3 c name names tt visited overrides)
  obtain v' r where r: "target c name visited overrides = (v', r)"
    by (cases "target c name visited overrides")
  from 3(1) r have sub: "visited \<subseteq> v'" by simp
  show ?case
  proof (cases r)
    case (Inl e)
    then show ?thesis using r sub by (simp add: target_inherits_Cons)
  next
    case (Inr b)
    have "v' \<subseteq> fst (target_inherits c names (case b of None \<Rightarrow> tt | Some t \<Rightarrow> merge tt t) v' overrides)"
      using 3(2)[OF r[symmetric] Inr] 3(3)[OF r[symmetric] Inr] by (cases b) simp_all
    then show ?thesis using r Inr sub by (auto simp add: target_inherits_Cons)
  qed
qed


lemma target_invariant:
  assumes "P zeroTarget"
    and "\<And>a b. P a \<Longrightarrow> P b \<Longrightarrow> P (merge a b)"
    and "\<And>name t tt. name \<in> S \<Longrightarrow> map_of (Target c) name = Some t \<Longrightarrow> P tt \<Longrightarrow>
           P (normalize_Target (merge (merge (merge defaultTarget tt) (t\<lparr>Inherits := None\<rparr>))
                (lookupT ov name)))"
  shows "target c name visited ov = (v', Inr (Some t)) \<Longrightarrow> v' - visited \<subseteq> S \<Longrightarrow> P t"
    and "P tt \<Longrightarrow> target_inherits c names tt visited ov = (v', Inr tt') \<Longrightarrow>
           v' - visited \<subseteq> S \<Longrightarrow> P tt'"
  using assms
proof (induction c name visited ov and c names tt visited ov arbitrary: v' t and v' tt'
    rule: target_target_inherits.induct)
  case (1 c name visited overrides)
  note fin = "1.prems"(5)
  from "1.prems"(1)[unfolded target_Some_iff] obtain t0 tt where nv: "name \<notin> visited"
    and t0: "map_of (Target c) name = Some t0"
    and wr: "target_inherits c (elems (Inherits t0)) zeroTarget (insert name visited) overrides = (v', Inr tt)"
    and t: "t = normalize_Target (merge (merge (merge defaultTarget tt) (t0\<lparr>Inherits := None\<rparr>))
                (lookupT overrides name))"
    by blast
  have "insert name visited \<subseteq> v'"
    using target_visited_mono(2)[of "insert name visited" c "elems (Inherits t0)" zeroTarget overrides] wr
    by simp
  then have nS: "name \<in> S" and sub: "v' - insert name visited \<subseteq> S"
    using "1.prems"(2) nv by auto
  have "P tt"
    by (rule "1.IH"[OF nv t0 "1.prems"(3) wr sub "1.prems"(3,4) fin])
  then show ?case unfolding t by (rule fin[OF nS t0])
next
  case (2 c tt visited overrides)
  then show ?case by simp
next
  case (3 c name names tt visited overrides)
  obtain x y where xy: "target c name visited overrides = (x, y)"
    by (cases "target c name visited overrides")
  have vx: "visited \<subseteq> x" using target_visited_mono(1)[of visited c name overrides] xy by simp
  show ?case
  proof (cases y)
    case (Inl e)
    then show ?thesis using "3.prems"(2) xy by (simp add: target_inherits_Cons)
  next
    case (Inr b)
    from "3.prems"(2) xy Inr
    have rest: "target_inherits c names (case b of None \<Rightarrow> tt | Some t \<Rightarrow> merge tt t) x overrides = (v', Inr tt')"
      by (simp add: target_inherits_Cons)
    have xv': "x \<subseteq> v'"
      using target_visited_mono(2)[of x c names "case b of None \<Rightarrow> tt | Some t \<Rightarrow> merge tt t" overrides] rest
      by simp
    have s1: "x - visited \<subseteq> S" and s2: "v' - x \<subseteq> S"
      using "3.prems"(3) vx xv' by auto
    show ?thesis
    proof (cases b)
      case None
      with rest have rest': "target_inherits c names tt x overrides = (v', Inr tt')" by simp
      show ?thesis
        by (rule "3.IH"(2)[OF xy[symmetric] Inr None "3.prems"(1) rest' s2 "3.prems"(4,5,6)])
    next
      case (Some t)
      from xy Inr Some have xy': "target c name visited overrides = (x, Inr (Some t))" by simp
      have "P t"
        by (rule "3.IH"(1)[OF xy' s1 "3.prems"(4,5,6)])
      then have pm: "P (merge tt t)" by (rule "3.prems"(5)[OF "3.prems"(1)])
      from rest Some have rest': "target_inherits c names (merge tt t) x overrides = (v', Inr tt')" by simp
      show ?thesis
        by (rule "3.IH"(3)[OF xy[symmetric] Inr Some pm rest' s2 "3.prems"(4,5,6)])
    qed
  qed
qed

subsection \<open>The override table\<close>

lemma setField_Inherits:
  "setField env parts keys t = Inr t' \<Longrightarrow> Inherits t' = Inherits t"
  by (auto simp: setField_def index1_def Let_def split: if_splits option.splits)

lemma lookupT_upd: "lookupT (m(k \<mapsto> t)) n = (if n = k then t else lookupT m n)"
  by (simp add: lookupT_def)

lemma lookupT_empty: "lookupT Map.empty n = zeroTarget"
  by (simp add: lookupT_def)

lemma newOverrides_names_Inherits:
  "newOverrides_names env parts keys names m = Inr m' \<Longrightarrow>
   (\<And>n. Inherits (lookupT m n) = None) \<Longrightarrow> Inherits (lookupT m' n) = None"
proof (induction names arbitrary: m)
  case Nil
  then show ?case by simp
next
  case (Cons name names)
  from Cons.prems(1) obtain t where t: "setField env parts keys (lookupT m name) = Inr t"
    and rest: "newOverrides_names env parts keys names (m(name \<mapsto> t)) = Inr m'"
    by (auto split: sum.splits)
  have "Inherits (lookupT (m(name \<mapsto> t)) k) = None" for k
    using setField_Inherits[OF t] Cons.prems(2) by (simp add: lookupT_upd)
  then show ?case by (rule Cons.IH[OF rest])
qed

lemma newOverrides_loop_Inherits:
  "newOverrides_loop M env c vs m = Inr m' \<Longrightarrow>
   (\<And>n. Inherits (lookupT m n) = None) \<Longrightarrow> Inherits (lookupT m' n) = None"
proof (induction vs arbitrary: m)
  case Nil
  then show ?case by simp
next
  case (Cons v vs)
  from Cons.prems(1) obtain names m1 where
    m1: "newOverrides_names env (SplitN v (CHR ''='') 2) (SplitN (SplitN v (CHR ''='') 2 ! 0) (CHR ''.'') 3) names m = Inr m1"
    and rest: "newOverrides_loop M env c vs m1 = Inr m'"
    by (auto simp: Let_def split: if_splits sum.splits)
  have "Inherits (lookupT m1 k) = None" for k
    by (rule newOverrides_names_Inherits[OF m1 Cons.prems(2)])
  then show ?case by (rule Cons.IH[OF rest])
qed

lemma newOverrides_Inherits:
  "newOverrides M env c vs = Inr ov \<Longrightarrow> Inherits (lookupT ov n) = None"
  unfolding newOverrides_def
  by (erule newOverrides_loop_Inherits) (simp add: lookupT_empty zeroTarget_fields)

lemma target_Inherits:
  assumes ov: "\<And>n. Inherits (lookupT ov n) = None"
    and r: "target c name visited ov = (v', Inr (Some t))"
  shows "Inherits t = None"
proof (rule target_invariant(1)[where P = "\<lambda>t. Inherits t = None" and S = UNIV, OF _ _ _ r])
  show "Inherits zeroTarget = None" by (simp add: zeroTarget_fields)
  show "Inherits (merge a b) = None" if "Inherits a = None" "Inherits b = None" for a b
    using that by (simp add: merge_fields)
  show "Inherits (normalize_Target (merge (merge (merge defaultTarget tt) (t0\<lparr>Inherits := None\<rparr>))
            (lookupT ov n))) = None"
    if "Inherits tt = None" for n t0 tt
    using that ov[of n] by (simp add: normalize_fields merge_fields defaultTarget_def zeroTarget_fields)
  show "v' - visited \<subseteq> UNIV" by simp
qed

lemma ResolveTarget_Inr:
  "ResolveTarget c name ov = Inr t \<longleftrightarrow>
     (\<exists>v t0. target c name {} ov = (v, Inr (Some t0)) \<and>
        t = t0\<lparr>Context := (if Context t0 = None then Some ''.'' else Context t0),
               Dockerfile := (if Dockerfile t0 = None then Some ''Dockerfile'' else Dockerfile t0)\<rparr>)"
proof -
  obtain v r where vr: "target c name {} ov = (v, r)" by (cases "target c name {} ov")
  show ?thesis
  proof (cases r)
    case (Inl e)
    then show ?thesis using vr by (simp add: ResolveTarget_def)
  next
    case (Inr b)
    then show ?thesis using vr by (cases b) (auto simp add: ResolveTarget_def)
  qed
qed

subsection \<open>Splitting an override string\<close>

lemma takeWhile_sep: "sep \<notin> set a \<Longrightarrow> takeWhile (\<lambda>c. c \<noteq> sep) (a @ sep # b) = a"
  by (induction a) auto

lemma dropWhile_sep: "sep \<notin> set a \<Longrightarrow> dropWhile (\<lambda>c. c \<noteq> sep) (a @ sep # b) = sep # b"
  by (induction a) auto

lemma SplitN_first:
  "sep \<notin> set a \<Longrightarrow> SplitN (a @ sep # b) sep (Suc (Suc n)) = a # SplitN b sep (Suc n)"
  by (simp add: takeWhile_sep dropWhile_sep)

lemma SplitN_last: "sep \<notin> set a \<Longrightarrow> SplitN a sep (Suc n) = [a]"
  by simp

lemma SplitN_one: "SplitN a sep (Suc 0) = [a]"
  by simp

text \<open>
  An override \<open>t.f=v\<close> for a target name \<open>t\<close> of the config, where neither \<open>t\<close> nor \<open>f\<close>
  holds a dot or an equals sign, applies the \<open>switch\<close> for \<open>f\<close> and \<open>v\<close> to the entry of
  \<open>t\<close>. (A target name that holds one of the two characters is split in the wrong
  place and cannot be addressed by any override.)
\<close>

lemma newOverrides_loop_field:
  assumes known: "map_of (Target c) t \<noteq> None"
    and t: "CHR ''.'' \<notin> set t" "CHR ''='' \<notin> set t"
    and f: "CHR ''.'' \<notin> set f" "CHR ''='' \<notin> set f"
  shows "newOverrides_loop M env c [t @ ''.'' @ f @ ''='' @ v] m =
     (case setField env [t @ ''.'' @ f, v] [t, f] (lookupT m t) of
        Inl e \<Rightarrow> Inl e
      | Inr t' \<Rightarrow> Inr (m(t \<mapsto> t')))"
proof -
  have "CHR ''='' \<notin> set (t @ CHR ''.'' # f)" using t f by simp
  from SplitN_first[OF this, of v 0]
  have p: "SplitN (t @ ''.'' @ f @ ''='' @ v) (CHR ''='') 2 = [t @ CHR ''.'' # f, v]"
    by (simp add: numeral_2_eq_2 SplitN_one del: SplitN.simps)
  have k: "SplitN (t @ CHR ''.'' # f) (CHR ''.'') 3 = [t, f]"
    using SplitN_first[of "CHR ''.''" t f 1] t f
    by (simp add: numeral_3_eq_3 SplitN_last del: SplitN.simps)
  have e: "expandTargets M c t = Inr [t]" using known by (simp add: expandTargets_def)
  show ?thesis
    unfolding newOverrides_loop.simps p
    by (cases "setField env [t @ CHR ''.'' # f, v] [t, f] (lookupT m t)")
      (simp_all add: k e Let_def del: SplitN.simps)
qed

lemma boolean_override_parsed:
  assumes known: "map_of (Target c) t \<noteq> None"
    and t: "CHR ''.'' \<notin> set t" "CHR ''='' \<notin> set t"
  shows "newOverrides M env c [t @ ''.no-cache='' @ v] =
     (case ParseBool v of
        None \<Rightarrow> Inl (InvalidBoolean v ''no-cache'')
      | Some b \<Rightarrow> Inr [t \<mapsto> zeroTarget\<lparr>NoCache := b\<rparr>])"
    and "newOverrides M env c [t @ ''.pull='' @ v] =
     (case ParseBool v of
        None \<Rightarrow> Inl (InvalidBoolean v ''pull'')
      | Some b \<Rightarrow> Inr [t \<mapsto> zeroTarget\<lparr>Pull := b\<rparr>])"
  using newOverrides_loop_field[OF known t, of "''no-cache''" M env v Map.empty]
    newOverrides_loop_field[OF known t, of "''pull''" M env v Map.empty]
  by (simp_all add: newOverrides_def setField_def index1_def lookupT_def
      split: option.splits del: newOverrides_loop.simps)


subsection \<open>The two boolean fields\<close>

lemma resolved_never_NoCache_Pull:
  assumes "ResolveTarget c name ov = Inr t"
  shows "\<not> NoCache t \<and> \<not> Pull t"
proof -
  from assms obtain v t0 where r: "target c name {} ov = (v, Inr (Some t0))"
    and t: "NoCache t = NoCache t0" "Pull t = Pull t0"
    by (auto simp: ResolveTarget_Inr)
  have "\<not> NoCache t0 \<and> \<not> Pull t0"
  proof (rule target_invariant(1)[where P = "\<lambda>t. \<not> NoCache t \<and> \<not> Pull t" and S = UNIV, OF _ _ _ r])
    show "\<not> NoCache zeroTarget \<and> \<not> Pull zeroTarget" by (simp add: zeroTarget_fields)
    show "\<not> NoCache (merge a b) \<and> \<not> Pull (merge a b)" if "\<not> NoCache a \<and> \<not> Pull a" for a b
      using that by (simp add: merge_fields)
    show "\<not> NoCache (normalize_Target (merge (merge (merge defaultTarget tt) (t0\<lparr>Inherits := None\<rparr>))
            (lookupT ov n))) \<and> \<not> Pull (normalize_Target (merge (merge (merge defaultTarget tt) (t0\<lparr>Inherits := None\<rparr>))
            (lookupT ov n)))" for n t0 tt
      by (simp add: normalize_fields merge_fields defaultTarget_def zeroTarget_fields)
    show "v - {} \<subseteq> UNIV" by simp
  qed
  then show ?thesis using t by simp
qed

subsection \<open>Results of target\<close>

lemma target_visited: "name \<in> visited \<Longrightarrow> target c name visited ov = (visited, Inr None)"
  by (simp add: target.simps[of c name visited ov])

lemma target_None_iff:
  "target c name visited ov = (v', Inr None) \<longleftrightarrow> name \<in> visited \<and> v' = visited"
proof (cases "name \<in> visited")
  case True
  then show ?thesis by (auto simp add: target_visited)
next
  case False
  show ?thesis
  proof (cases "map_of (Target c) name")
    case None
    then show ?thesis using False by (simp add: target.simps[of c name visited ov])
  next
    case (Some t0)
    obtain w r where wr: "target_inherits c (elems (Inherits t0)) zeroTarget (insert name visited) ov = (w, r)"
      by (cases "target_inherits c (elems (Inherits t0)) zeroTarget (insert name visited) ov")
    show ?thesis using False Some wr
      by (cases r) (simp_all add: target.simps[of c name visited ov])
  qed
qed

lemma target_Inl_iff:
  "target c name visited ov = (v', Inl e) \<longleftrightarrow>
     name \<notin> visited \<and>
     (map_of (Target c) name = None \<and> v' = insert name visited \<and> e = TargetNotFound name \<or>
      (\<exists>t0. map_of (Target c) name = Some t0 \<and>
         target_inherits c (elems (Inherits t0)) zeroTarget (insert name visited) ov = (v', Inl e)))"
proof (cases "name \<in> visited")
  case True
  then show ?thesis by (simp add: target_visited)
next
  case False
  show ?thesis
  proof (cases "map_of (Target c) name")
    case None
    then show ?thesis using False by (auto simp add: target.simps[of c name visited ov])
  next
    case (Some t0)
    obtain w r where wr: "target_inherits c (elems (Inherits t0)) zeroTarget (insert name visited) ov = (w, r)"
      by (cases "target_inherits c (elems (Inherits t0)) zeroTarget (insert name visited) ov")
    show ?thesis using False Some wr
      by (cases r) (auto simp add: target.simps[of c name visited ov])
  qed
qed

lemma target_name_visited: "name \<in> fst (target c name visited ov)"
proof (cases "name \<in> visited")
  case True
  then show ?thesis by (simp add: target_visited)
next
  case False
  show ?thesis
  proof (cases "map_of (Target c) name")
    case None
    then show ?thesis using False by (simp add: target.simps[of c name visited ov])
  next
    case (Some t0)
    obtain w r where wr: "target_inherits c (elems (Inherits t0)) zeroTarget (insert name visited) ov = (w, r)"
      by (cases "target_inherits c (elems (Inherits t0)) zeroTarget (insert name visited) ov")
    have "insert name visited \<subseteq> w"
      using target_visited_mono(2)[of "insert name visited" c "elems (Inherits t0)" zeroTarget ov] wr
      by simp
    then show ?thesis using False Some wr
      by (cases r) (auto simp add: target.simps[of c name visited ov])
  qed
qed

lemma target_errors:
  "target c name visited ov = (v', Inl e) \<Longrightarrow> \<exists>m. e = TargetNotFound m"
  "target_inherits c names tt visited ov = (v', Inl e) \<Longrightarrow> \<exists>m. e = TargetNotFound m"
proof (induction c name visited ov and c names tt visited ov arbitrary: v' and v'
    rule: target_target_inherits.induct)
  case (1 c name visited overrides)
  from "1.prems"[unfolded target_Inl_iff] have nv: "name \<notin> visited" by simp
  show ?case
  proof (cases "map_of (Target c) name")
    case None
    then show ?thesis using "1.prems"[unfolded target_Inl_iff] by simp
  next
    case (Some t0)
    then have "target_inherits c (elems (Inherits t0)) zeroTarget (insert name visited) overrides = (v', Inl e)"
      using "1.prems"[unfolded target_Inl_iff] by simp
    then show ?thesis by (rule "1.IH"[OF nv Some])
  qed
next
  case (2 c tt visited overrides)
  then show ?case by simp
next
  case (3 c name names tt visited overrides)
  obtain x y where xy: "target c name visited overrides = (x, y)"
    by (cases "target c name visited overrides")
  show ?case
  proof (cases y)
    case (Inl e')
    then have "e' = e" using "3.prems" xy by (simp add: target_inherits_Cons)
    then show ?thesis using "3.IH"(1)[of x] xy Inl by simp
  next
    case (Inr b)
    show ?thesis
    proof (cases b)
      case None
      then have "target_inherits c names tt x overrides = (v', Inl e)"
        using "3.prems" xy Inr by (simp add: target_inherits_Cons)
      then show ?thesis by (rule "3.IH"(2)[OF xy[symmetric] Inr None])
    next
      case (Some t)
      then have "target_inherits c names (merge tt t) x overrides = (v', Inl e)"
        using "3.prems" xy Inr by (simp add: target_inherits_Cons)
      then show ?thesis by (rule "3.IH"(3)[OF xy[symmetric] Inr Some])
    qed
  qed
qed

lemma target_never_set:
  fixes F :: "Target \<Rightarrow> 'a option"
  assumes Fzero: "F zeroTarget = None"
    and Fmerge: "\<And>a b. F a = None \<Longrightarrow> F b = None \<Longrightarrow> F (merge a b) = None"
    and Fnorm: "\<And>a. F a = None \<Longrightarrow> F (normalize_Target a) = None"
    and Fupd: "\<And>a. F (a\<lparr>Inherits := None\<rparr>) = F a"
    and r: "target c name visited ov = (v', Inr (Some t))"
    and ns: "never_set F c ov (v' - visited)"
  shows "F t = None"
proof (rule target_invariant(1)[where P = "\<lambda>t. F t = None" and S = "v' - visited", OF Fzero Fmerge _ r])
  show "v' - visited \<subseteq> v' - visited" by simp
  show "F (normalize_Target (merge (merge (merge defaultTarget tt) (t0\<lparr>Inherits := None\<rparr>))
            (lookupT ov n))) = None"
    if "n \<in> v' - visited" "map_of (Target c) n = Some t0" "F tt = None" for n t0 tt
  proof -
    have a: "F t0 = None" and b: "F (lookupT ov n) = None"
      using ns[unfolded never_set_def, rule_format, OF that(1)] that(2) by simp_all
    have m1: "F (merge defaultTarget tt) = None"
      by (rule Fmerge) (simp_all add: defaultTarget_def Fzero that(3))
    have m2: "F (merge (merge defaultTarget tt) (t0\<lparr>Inherits := None\<rparr>)) = None"
      by (rule Fmerge[OF m1]) (simp add: Fupd a)
    show ?thesis by (rule Fnorm[OF Fmerge[OF m2 b]])
  qed
qed

lemma target_never_set_all:
  assumes r: "target c name visited ov = (v', Inr (Some t))"
  shows "never_set Context c ov (v' - visited) \<Longrightarrow> Context t = None"
    and "never_set Dockerfile c ov (v' - visited) \<Longrightarrow> Dockerfile t = None"
    and "never_set Args c ov (v' - visited) \<Longrightarrow> Args t = None"
    and "never_set Labels c ov (v' - visited) \<Longrightarrow> Labels t = None"
    and "never_set Tags c ov (v' - visited) \<Longrightarrow> Tags t = None"
    and "never_set TargetStage c ov (v' - visited) \<Longrightarrow> TargetStage t = None"
    and "never_set Secrets c ov (v' - visited) \<Longrightarrow> Secrets t = None"
    and "never_set SSH c ov (v' - visited) \<Longrightarrow> SSH t = None"
    and "never_set Platforms c ov (v' - visited) \<Longrightarrow> Platforms t = None"
    and "never_set CacheFrom c ov (v' - visited) \<Longrightarrow> CacheFrom t = None"
    and "never_set CacheTo c ov (v' - visited) \<Longrightarrow> CacheTo t = None"
    and "never_set Outputs c ov (v' - visited) \<Longrightarrow> Outputs t = None"
  by (erule target_never_set[OF _ _ _ _ r, rotated -1];
      simp add: zeroTarget_fields merge_fields normalize_fields mergeMap_def)+


subsection \<open>expandTargets and mergeConfig\<close>

lemma expandTargets_loop_spec:
  "expandTargets_loop M pattern names acc =
     (if \<exists>n \<in> set names. M pattern n = None then Inl (CouldNotMatchTargets pattern)
      else Inr (acc @ filter (\<lambda>n. M pattern n = Some True) names))"
proof (induction names arbitrary: acc)
  case Nil
  then show ?case by simp
next
  case (Cons n names)
  show ?case
  proof (cases "M pattern n")
    case None
    then show ?thesis by simp
  next
    case (Some ok)
    then show ?thesis using Cons[of "if ok then acc @ [n] else acc"] by auto
  qed
qed

lemma expandTargets_cases:
  "expandTargets M c pattern =
     (if pattern \<in> set (map fst (Target c)) then Inr [pattern]
      else if \<exists>name \<in> set (map fst (Target c)). M pattern name = None
        then Inl (CouldNotMatchTargets pattern)
      else if filter (\<lambda>name. M pattern name = Some True) (map fst (Target c)) = []
        then Inl (NoTargetMatching pattern)
      else Inr (filter (\<lambda>name. M pattern name = Some True) (map fst (Target c))))"
proof -
  define names where "names = map fst (Target c)"
  define matched where "matched = filter (\<lambda>name. M pattern name = Some True) names"
  have k: "map_of (Target c) pattern \<noteq> None \<longleftrightarrow> pattern \<in> set names"
    unfolding names_def by (simp add: map_of_eq_None_iff)
  have "expandTargets M c pattern =
     (if pattern \<in> set names then Inr [pattern]
      else if \<exists>name \<in> set names. M pattern name = None then Inl (CouldNotMatchTargets pattern)
      else if matched = [] then Inl (NoTargetMatching pattern)
      else Inr matched)"
    unfolding expandTargets_def expandTargets_loop_spec names_def[symmetric] k
      append_Nil matched_def[symmetric]
    by (cases "\<exists>name \<in> set names. M pattern name = None") auto
  then show ?thesis unfolding matched_def names_def .
qed

lemma map_of_mergeConfig_targets:
  "distinct (map fst c2) \<Longrightarrow>
   map_of (mergeConfig_targets c1 c2) k =
     (case map_of c2 k of
        None \<Rightarrow> map_of c1 k
      | Some t2 \<Rightarrow> (case map_of c1 k of None \<Rightarrow> Some t2 | Some t1 \<Rightarrow> Some (merge t1 t2)))"
proof (induction c2 arbitrary: c1)
  case Nil
  then show ?case by simp
next
  case (Cons p c2)
  obtain k' t' where p: "p = (k', t')" by (cases p)
  from Cons.prems p have d: "distinct (map fst c2)" and n: "map_of c2 k' = None"
    by (auto simp: map_of_eq_None_iff)
  show ?case
    using Cons.IH[OF d] n
    by (auto simp: p update_conv' split: option.splits)
qed

lemma entries_mergeMap: "entries (mergeMap m1 m2) = entries m1 ++ entries m2"
  by (simp add: mergeMap_def)

lemma target_own_Args:
  assumes "target c name visited ov = (v', Inr (Some t))" and "map_of (Target c) name = Some own"
  shows "\<exists>tt::Target. entries (Args t) = entries (Args tt) ++ entries (Args own) ++ entries (Args (lookupT ov name))"
  using assms
  by (auto simp: target_Some_iff normalize_fields merge_fields entries_mergeMap defaultTarget_def zeroTarget_fields)

subsection \<open>removeDupes on the store\<close>

text \<open>
  On a slice that lies within its array, \<open>removeDupes\<close> returns the header with the
  length of the first occurrences, and leaves in the array the first occurrences
  followed by what the array held behind them before.
\<close>

lemma removeDupes_store_spec:
  assumes "array sl < length st" and "len sl \<le> length (st ! array sl)"
  shows "removeDupes_store st (Some sl) =
     (st[array sl := first_occurrences {} (contents st (Some sl)) @
           drop (length (first_occurrences {} (contents st (Some sl)))) (st ! array sl)],
      Some (sl\<lparr>len := length (first_occurrences {} (contents st (Some sl)))\<rparr>))"
proof -
  let ?xs = "take (len sl) (st ! array sl)"
  let ?d = "first_occurrences {} ?xs"
  have "length ?d \<le> length ?xs"
    by (rule list_emb_length[OF subseq_first_occurrences])
  then have l: "length ?d \<le> len sl" using assms(2) by simp
  have "drop (length ?d) (st ! array sl) =
      drop (length ?d) (?xs @ drop (len sl) (st ! array sl))"
    by simp
  also have "\<dots> = drop (length ?d) ?xs @ drop (len sl) (st ! array sl)"
    using l assms(2) by (simp del: append_take_drop_id)
  finally have e: "(?d @ drop (length ?d) ?xs) @ drop (len sl) (st ! array sl) =
      ?d @ drop (length ?d) (st ! array sl)"
    by simp
  have "removeDupes_loop ?xs 0 0 {} = (?d @ drop (length ?d) ?xs, length ?d)"
    using removeDupes_loop_spec[of 0 0 ?xs "{}"] by simp
  with e show ?thesis
    by (simp add: removeDupes_store_def contents_def)
qed

subsection \<open>Groups\<close>

lemma group_names_visited: "name \<in> visited \<Longrightarrow> group_names c name visited = (visited, [])"
  by simp

lemma group_names_leaf:
  "name \<notin> visited \<Longrightarrow> map_of (Group c) name = None \<Longrightarrow>
   group_names c name visited = (visited, [name])"
  by simp

lemma ResolveGroup_compose:
  "ResolveGroup (mergeConfig compose_config1 compose_config2) ''default'' =
     [''db'', ''webapp'', ''newservice'']"
  by (simp add: ResolveGroup_def mergeConfig_def compose_config1_def compose_config2_def
      append_slice_def)

lemma ResolveGroup_cyclic: "ResolveGroup cyclic_groups ''g'' = [''y'', ''x'']"
  by (simp add: ResolveGroup_def cyclic_groups_def)

subsection \<open>Evaluation on concrete inputs\<close>

lemmas eval_overrides = newOverrides_def expandTargets_def setField_def index1_def lookupT_def
  numeral_2_eq_2 numeral_3_eq_3 Let_def ParseBool_def append_slice_def

lemmas eval_target = ResolveTarget_def target.simps target_inherits.simps merge_def
  normalize_Target_def lookupT_def defaultTarget_def zeroTarget_def mergeMap_def append_slice_def
  removeDupes_def removeDupes_loop.simps Let_def

lemmas eval_store = ResolveTarget_store_def target_store.simps target_inherits_store.simps
  finish_store_def merge_store_def normalize_store_def removeDupes_store_def append_store_def
  contents_def lookupT_s_def zeroTarget_s_def mergeMap_def removeDupes_loop.simps Let_def
  denote_def denote_slice_def

section \<open>The claims\<close>

subsection \<open>C1: boolean overrides\<close>

text \<open>
  C1. The claim: the override \<open>t.no-cache=notabool\<close> fails with an error that names the
  value, and \<open>t.no-cache=true\<close> gives a resolved target whose no-cache flag is true
  (likewise for pull). The code at the configuration of \<open>TestReadTargets\<close> and
  \<open>t = webapp\<close>: the first half holds, and \<open>newOverrides\<close> does record the flag in the
  override table, but the resolved target has the flag false. \<open>merge\<close> has no
  statement for \<open>NoCache\<close> or \<open>Pull\<close>, so the final merge with the table entry drops
  them (lemma \<open>resolved_never_NoCache_Pull\<close>: no resolved target has either flag set;
  lemma \<open>boolean_override_parsed\<close>: the override is parsed and validated as the claim
  says, for every target name without a dot or an equals sign).
\<close>

theorem no_cache_override_lost:
  "newOverrides test_Match Map.empty test_config [''webapp.no-cache=notabool''] =
     Inl (InvalidBoolean ''notabool'' ''no-cache'') \<and>
   newOverrides test_Match Map.empty test_config [''webapp.pull=notabool''] =
     Inl (InvalidBoolean ''notabool'' ''pull'') \<and>
   newOverrides test_Match Map.empty test_config [''webapp.no-cache=true''] =
     Inr [''webapp'' \<mapsto> zeroTarget\<lparr>NoCache := True\<rparr>] \<and>
   newOverrides test_Match Map.empty test_config [''webapp.pull=true''] =
     Inr [''webapp'' \<mapsto> zeroTarget\<lparr>Pull := True\<rparr>] \<and>
   (\<exists>t. ResolveTarget test_config ''webapp'' [''webapp'' \<mapsto> zeroTarget\<lparr>NoCache := True\<rparr>] = Inr t \<and>
        NoCache t = False) \<and>
   (\<exists>t. ResolveTarget test_config ''webapp'' [''webapp'' \<mapsto> zeroTarget\<lparr>Pull := True\<rparr>] = Inr t \<and>
        Pull t = False)"
  by (simp add: eval_overrides eval_target test_config_def)

subsection \<open>C2: the platform override key\<close>

text \<open>
  C2, as amended. The override key for the platforms list is \<open>platform\<close>: for every
  target name \<open>t\<close> of the config that contains neither a dot nor an equals sign, and
  every value \<open>v\<close>, the override string \<open>t.platform=v\<close> is accepted and appends \<open>v\<close> to
  the platforms list of \<open>t\<close>'s entry in the override table, whatever the table held
  before; on the empty table the entry becomes the zero target with platforms \<open>[v]\<close>.
  The key \<open>platforms\<close> of the claim is rejected as an unknown key.
\<close>

theorem platform_override_key:
  assumes known: "map_of (Target c) t \<noteq> None"
    and dot: "CHR ''.'' \<notin> set t" and eq: "CHR ''='' \<notin> set t"
  shows "newOverrides_loop M env c [t @ ''.platform='' @ v] m =
           Inr (m(t \<mapsto> (lookupT m t)\<lparr>Platforms := append_slice (Platforms (lookupT m t)) [v]\<rparr>)) \<and>
         newOverrides M env c [t @ ''.platform='' @ v] =
           Inr [t \<mapsto> zeroTarget\<lparr>Platforms := Some [v]\<rparr>] \<and>
         newOverrides_loop M env c [t @ ''.platforms='' @ v] m = Inl (UnknownKey ''platforms'')"
proof -
  have p1: "SplitN (t @ ''.platform='' @ v) (CHR ''='') 2 = [t @ ''.platform'', v]"
    using SplitN_first[of "CHR ''=''" "t @ ''.platform''" v 0] eq
    by (simp add: numeral_2_eq_2 SplitN_one del: SplitN.simps)
  have k1: "SplitN (t @ ''.platform'') (CHR ''.'') 3 = [t, ''platform'']"
    using SplitN_first[of "CHR ''.''" t "''platform''" 1] dot
    by (simp add: numeral_3_eq_3 SplitN_last del: SplitN.simps)
  have p2: "SplitN (t @ ''.platforms='' @ v) (CHR ''='') 2 = [t @ ''.platforms'', v]"
    using SplitN_first[of "CHR ''=''" "t @ ''.platforms''" v 0] eq
    by (simp add: numeral_2_eq_2 SplitN_one del: SplitN.simps)
  have k2: "SplitN (t @ ''.platforms'') (CHR ''.'') 3 = [t, ''platforms'']"
    using SplitN_first[of "CHR ''.''" t "''platforms''" 1] dot
    by (simp add: numeral_3_eq_3 SplitN_last del: SplitN.simps)
  have e: "expandTargets M c t = Inr [t]" using known by (simp add: expandTargets_def)
  have a: "newOverrides_loop M env c [t @ ''.platform='' @ v] m =
           Inr (m(t \<mapsto> (lookupT m t)\<lparr>Platforms := append_slice (Platforms (lookupT m t)) [v]\<rparr>))" for m
    unfolding newOverrides_loop.simps p1
    by (simp add: k1 e setField_def index1_def Let_def del: SplitN.simps)
  have b: "newOverrides_loop M env c [t @ ''.platforms='' @ v] m = Inl (UnknownKey ''platforms'')"
    unfolding newOverrides_loop.simps p2
    by (simp add: k2 e setField_def index1_def Let_def del: SplitN.simps)
  show ?thesis using a[of m] a[of Map.empty] b
    by (simp add: newOverrides_def lookupT_def zeroTarget_def append_slice_def del: newOverrides_loop.simps)
qed

text \<open>The amended claim at \<open>t = webapp\<close> and \<open>v = linux/amd64\<close>.\<close>

theorem platform_override_key_witness:
  "map_of (Target test_config) ''webapp'' \<noteq> None \<and> CHR ''.'' \<notin> set ''webapp'' \<and>
   CHR ''='' \<notin> set ''webapp'' \<and>
   newOverrides test_Match Map.empty test_config [''webapp.platform=linux/amd64''] =
     Inr [''webapp'' \<mapsto> zeroTarget\<lparr>Platforms := Some [''linux/amd64'']\<rparr>]"
proof -
  have k: "map_of (Target test_config) ''webapp'' \<noteq> None" by (simp add: test_config_def)
  have d: "CHR ''.'' \<notin> set ''webapp''" and e: "CHR ''='' \<notin> set ''webapp''" by simp_all
  from platform_override_key[OF k d e, of test_Match Map.empty "''linux/amd64''" Map.empty] k
  show ?thesis by simp
qed

text \<open>
  The claim as stated fails: \<open>webapp\<close> is a target of the config, and the override
  \<open>webapp.platforms=linux/amd64\<close> is rejected.
\<close>

theorem platforms_key_counterexample:
  "map_of (Target test_config) ''webapp'' \<noteq> None \<and>
   newOverrides test_Match empty_env test_config [''webapp.platforms=linux/amd64''] =
     Inl (UnknownKey ''platforms'')"
  by (simp add: eval_overrides test_config_def)

subsection \<open>C3: an override addressed at an ancestor\<close>

text \<open>
  C3. In every config in which target \<open>webapp\<close> inherits \<open>webDEP\<close> and declares the
  build argument \<open>VAR_BOTH = webapp\<close>, and target \<open>webDEP\<close> inherits nothing and
  declares \<open>VAR_INHERITED = webDEP\<close> and \<open>VAR_BOTH = webDEP\<close>, the single override
  \<open>webDEP.args.VAR_INHERITED=override\<close> parses, and resolving \<open>webapp\<close> with it
  succeeds with the arguments \<open>VAR_INHERITED = override\<close> and \<open>VAR_BOTH = webapp\<close> and
  no other argument.
\<close>

theorem ancestor_override_propagates:
  assumes wa: "map_of (Target c) ''webapp'' = Some wa" "Inherits wa = Some [''webDEP'']"
      "Args wa = Some [''VAR_BOTH'' \<mapsto> ''webapp'']"
    and wd: "map_of (Target c) ''webDEP'' = Some wd" "elems (Inherits wd) = []"
      "Args wd = Some [''VAR_INHERITED'' \<mapsto> ''webDEP'', ''VAR_BOTH'' \<mapsto> ''webDEP'']"
  shows "\<exists>ov t. newOverrides M env c [''webDEP.args.VAR_INHERITED=override''] = Inr ov \<and>
     ResolveTarget c ''webapp'' ov = Inr t \<and>
     entries (Args t) ''VAR_INHERITED'' = Some ''override'' \<and>
     entries (Args t) ''VAR_BOTH'' = Some ''webapp'' \<and>
     dom (entries (Args t)) = {''VAR_INHERITED'', ''VAR_BOTH''}"
proof -
  let ?ov = "[''webDEP'' \<mapsto> zeroTarget\<lparr>Args := Some [''VAR_INHERITED'' \<mapsto> ''override'']\<rparr>]"
  have a: "newOverrides M env c [''webDEP.args.VAR_INHERITED=override''] = Inr ?ov"
    using wd(1) by (simp add: eval_overrides zeroTarget_fields)
  have d: "target c ''webDEP'' {''webapp''} ?ov =
      ({''webDEP'', ''webapp''},
       Inr (Some (normalize_Target (merge (merge (merge defaultTarget zeroTarget) (wd\<lparr>Inherits := None\<rparr>))
          (zeroTarget\<lparr>Args := Some [''VAR_INHERITED'' \<mapsto> ''override'']\<rparr>)))))"
    using wd(1,2) by (simp add: target.simps[of c "''webDEP''"] lookupT_def)
  have w: "target c ''webapp'' {} ?ov =
      ({''webDEP'', ''webapp''},
       Inr (Some (normalize_Target (merge (merge (merge defaultTarget
          (merge zeroTarget (normalize_Target (merge (merge (merge defaultTarget zeroTarget) (wd\<lparr>Inherits := None\<rparr>))
          (zeroTarget\<lparr>Args := Some [''VAR_INHERITED'' \<mapsto> ''override'']\<rparr>)))))
          (wa\<lparr>Inherits := None\<rparr>)) zeroTarget))))"
    using wa(1,2) d by (simp add: target.simps[of c "''webapp''"] target_inherits_Cons lookupT_def)
  obtain t where t: "ResolveTarget c ''webapp'' ?ov = Inr t"
    and args: "Args t = mergeMap (mergeMap (mergeMap None (mergeMap None (mergeMap (mergeMap (mergeMap None None) (Args wd))
        (Some [''VAR_INHERITED'' \<mapsto> ''override''])))) (Args wa)) None"
    using w by (simp add: ResolveTarget_def merge_fields normalize_fields defaultTarget_def zeroTarget_fields)
  have "entries (Args t) ''VAR_INHERITED'' = Some ''override''"
    "entries (Args t) ''VAR_BOTH'' = Some ''webapp''"
    "dom (entries (Args t)) = {''VAR_INHERITED'', ''VAR_BOTH''}"
    unfolding args wa(3) wd(3) by (auto simp add: mergeMap_def)
  with a t show ?thesis by blast
qed

text \<open>The configuration of \<open>TestReadTargets\<close> is such a config.\<close>

theorem ancestor_override_propagates_witness:
  "\<exists>ov t. newOverrides test_Match Map.empty test_config [''webDEP.args.VAR_INHERITED=override''] = Inr ov \<and>
     ResolveTarget test_config ''webapp'' ov = Inr t \<and>
     entries (Args t) ''VAR_INHERITED'' = Some ''override'' \<and>
     entries (Args t) ''VAR_BOTH'' = Some ''webapp'' \<and>
     dom (entries (Args t)) = {''VAR_INHERITED'', ''VAR_BOTH''}"
  by (rule ancestor_override_propagates[where c = test_config
        and wa = "zeroTarget\<lparr>Inherits := Some [''webDEP''], Dockerfile := Some ''Dockerfile.webapp'',
            Args := Some [''VAR_BOTH'' \<mapsto> ''webapp'']\<rparr>"
        and wd = "zeroTarget\<lparr>Args := Some [''VAR_INHERITED'' \<mapsto> ''webDEP'', ''VAR_BOTH'' \<mapsto> ''webDEP'']\<rparr>"])
    (simp_all add: test_config_def zeroTarget_def)

subsection \<open>C4: fallback defaults\<close>

text \<open>
  C4. The fallback defaults are applied once, by \<open>ResolveTarget\<close>, to the result of the
  whole chain. Whenever \<open>ResolveTarget\<close> succeeds with \<open>t\<close>, the recursion \<open>target\<close>
  returned some \<open>t0\<close> together with the set \<open>chain\<close> of the names it visited, and \<open>t\<close>
  is \<open>t0\<close> with context \<open>.\<close> if \<open>t0\<close> has no context and dockerfile \<open>Dockerfile\<close> if
  \<open>t0\<close> has no dockerfile, every other field being that of \<open>t0\<close>. A field that no
  target of the chain declares and no override for a name of the chain sets is unset
  (nil) in \<open>t0\<close>; so context and dockerfile take their fallbacks in \<open>t\<close>, and every
  other such field is unset in \<open>t\<close>. The two flags are false in every resolved target.
  The last conjunct is about the intermediate levels: every call of \<open>target\<close>, with any
  visited set, returns context and dockerfile unset when the names it visits never set
  them, so no fallback is filled in below the top level.
\<close>

theorem fallback_defaults_only_at_top_level:
  assumes "ResolveTarget c name ov = Inr t"
  shows "\<exists>chain t0. target c name {} ov = (chain, Inr (Some t0)) \<and>
     t = t0\<lparr>Context := (if Context t0 = None then Some ''.'' else Context t0),
            Dockerfile := (if Dockerfile t0 = None then Some ''Dockerfile'' else Dockerfile t0)\<rparr> \<and>
     (never_set Context c ov chain \<longrightarrow> Context t0 = None \<and> Context t = Some ''.'') \<and>
     (never_set Dockerfile c ov chain \<longrightarrow> Dockerfile t0 = None \<and> Dockerfile t = Some ''Dockerfile'') \<and>
     (never_set Args c ov chain \<longrightarrow> Args t = None) \<and>
     (never_set Labels c ov chain \<longrightarrow> Labels t = None) \<and>
     (never_set Tags c ov chain \<longrightarrow> Tags t = None) \<and>
     (never_set TargetStage c ov chain \<longrightarrow> TargetStage t = None) \<and>
     (never_set Secrets c ov chain \<longrightarrow> Secrets t = None) \<and>
     (never_set SSH c ov chain \<longrightarrow> SSH t = None) \<and>
     (never_set Platforms c ov chain \<longrightarrow> Platforms t = None) \<and>
     (never_set CacheFrom c ov chain \<longrightarrow> CacheFrom t = None) \<and>
     (never_set CacheTo c ov chain \<longrightarrow> CacheTo t = None) \<and>
     (never_set Outputs c ov chain \<longrightarrow> Outputs t = None) \<and>
     \<not> Pull t \<and> \<not> NoCache t \<and>
     (\<forall>n v v' t1. target c n v ov = (v', Inr (Some t1)) \<longrightarrow>
        (never_set Context c ov (v' - v) \<longrightarrow> Context t1 = None) \<and>
        (never_set Dockerfile c ov (v' - v) \<longrightarrow> Dockerfile t1 = None))"
proof -
  from assms obtain chain t0 where r: "target c name {} ov = (chain, Inr (Some t0))"
    and t: "t = t0\<lparr>Context := (if Context t0 = None then Some ''.'' else Context t0),
            Dockerfile := (if Dockerfile t0 = None then Some ''Dockerfile'' else Dockerfile t0)\<rparr>"
    by (auto simp: ResolveTarget_Inr)
  note ns = target_never_set_all[OF r, simplified]
  have f: "Args t = Args t0" "Labels t = Labels t0" "Tags t = Tags t0" "TargetStage t = TargetStage t0"
    "Secrets t = Secrets t0" "SSH t = SSH t0" "Platforms t = Platforms t0" "CacheFrom t = CacheFrom t0"
    "CacheTo t = CacheTo t0" "Outputs t = Outputs t0"
    "Context t = (if Context t0 = None then Some ''.'' else Context t0)"
    "Dockerfile t = (if Dockerfile t0 = None then Some ''Dockerfile'' else Dockerfile t0)"
    unfolding t by simp_all
  have b: "\<not> Pull t \<and> \<not> NoCache t"
    using resolved_never_NoCache_Pull[OF assms] by simp
  have i: "\<forall>n v v' t1. target c n v ov = (v', Inr (Some t1)) \<longrightarrow>
        (never_set Context c ov (v' - v) \<longrightarrow> Context t1 = None) \<and>
        (never_set Dockerfile c ov (v' - v) \<longrightarrow> Dockerfile t1 = None)"
  proof (intro allI impI conjI)
    fix n v v' t1
    assume a: "target c n v ov = (v', Inr (Some t1))"
    show "Context t1 = None" if "never_set Context c ov (v' - v)"
      using that by (rule target_never_set_all(1)[OF a])
    show "Dockerfile t1 = None" if "never_set Dockerfile c ov (v' - v)"
      using that by (rule target_never_set_all(2)[OF a])
  qed
  have c1: "never_set Context c ov chain \<longrightarrow> Context t0 = None \<and> Context t = Some ''.''"
    using ns(1) f(11) by simp
  have c2: "never_set Dockerfile c ov chain \<longrightarrow> Dockerfile t0 = None \<and> Dockerfile t = Some ''Dockerfile''"
    using ns(2) f(12) by simp
  have c3: "never_set Args c ov chain \<longrightarrow> Args t = None" using ns(3) f(1) by simp
  have c4: "never_set Labels c ov chain \<longrightarrow> Labels t = None" using ns(4) f(2) by simp
  have c5: "never_set Tags c ov chain \<longrightarrow> Tags t = None" using ns(5) f(3) by simp
  have c6: "never_set TargetStage c ov chain \<longrightarrow> TargetStage t = None" using ns(6) f(4) by simp
  have c7: "never_set Secrets c ov chain \<longrightarrow> Secrets t = None" using ns(7) f(5) by simp
  have c8: "never_set SSH c ov chain \<longrightarrow> SSH t = None" using ns(8) f(6) by simp
  have c9: "never_set Platforms c ov chain \<longrightarrow> Platforms t = None" using ns(9) f(7) by simp
  have c10: "never_set CacheFrom c ov chain \<longrightarrow> CacheFrom t = None" using ns(10) f(8) by simp
  have c11: "never_set CacheTo c ov chain \<longrightarrow> CacheTo t = None" using ns(11) f(9) by simp
  have c12: "never_set Outputs c ov chain \<longrightarrow> Outputs t = None" using ns(12) f(10) by simp
  show ?thesis
    by (rule exI[of _ chain], rule exI[of _ t0])
      (intro conjI r t c1 c2 c3 c4 c5 c6 c7 c8 c9 c10 c11 c12 conjunct1[OF b] conjunct2[OF b] i)
qed

text \<open>
  A child of two parents: the second parent has no dockerfile of its own, and the child
  gets the first parent's one. Resolved on its own, the second parent gets both
  fallbacks.
\<close>

theorem fallback_defaults_only_at_top_level_witness:
  "\<exists>t. ResolveTarget two_parents_config ''child'' Map.empty = Inr t \<and>
     Context t = Some ''ctx1'' \<and> Dockerfile t = Some ''Dockerfile.p1'' \<and> Tags t = Some [''t2''] \<and>
     Args t = None \<and> Outputs t = None" and
  "\<exists>t. ResolveTarget two_parents_config ''p2'' Map.empty = Inr t \<and>
     Context t = Some ''.'' \<and> Dockerfile t = Some ''Dockerfile'' \<and> Tags t = Some [''t2'']"
proof -
  have "\<exists>t. ResolveTarget two_parents_config ''child'' Map.empty = Inr t \<and>
     Context t = Some ''ctx1'' \<and> Dockerfile t = Some ''Dockerfile.p1'' \<and> Tags t = Some [''t2'']"
    by (simp add: eval_target two_parents_config_def)
  then obtain t where r: "ResolveTarget two_parents_config ''child'' Map.empty = Inr t"
    and f: "Context t = Some ''ctx1''" "Dockerfile t = Some ''Dockerfile.p1''" "Tags t = Some [''t2'']"
    by (elim exE conjE)
  have ch: "fst (target two_parents_config ''child'' {} Map.empty) = {''child'', ''p1'', ''p2''}"
    by (simp add: eval_target two_parents_config_def insert_commute)
  have n: "never_set Args two_parents_config Map.empty {''child'', ''p1'', ''p2''}"
    "never_set Outputs two_parents_config Map.empty {''child'', ''p1'', ''p2''}"
    by (simp_all add: never_set_def two_parents_config_def lookupT_def zeroTarget_def)
  from fallback_defaults_only_at_top_level[OF r] obtain chain t0 where
    c: "target two_parents_config ''child'' {} Map.empty = (chain, Inr (Some t0))"
    and a: "never_set Args two_parents_config Map.empty chain \<longrightarrow> Args t = None"
    and o: "never_set Outputs two_parents_config Map.empty chain \<longrightarrow> Outputs t = None"
    by (elim exE conjE)
  from c ch have "chain = {''child'', ''p1'', ''p2''}" by simp
  with a o n have "Args t = None \<and> Outputs t = None" by simp
  with r f show "\<exists>t. ResolveTarget two_parents_config ''child'' Map.empty = Inr t \<and>
     Context t = Some ''ctx1'' \<and> Dockerfile t = Some ''Dockerfile.p1'' \<and> Tags t = Some [''t2''] \<and>
     Args t = None \<and> Outputs t = None" by blast
  show "\<exists>t. ResolveTarget two_parents_config ''p2'' Map.empty = Inr t \<and>
     Context t = Some ''.'' \<and> Dockerfile t = Some ''Dockerfile'' \<and> Tags t = Some [''t2'']"
    by (simp add: eval_target two_parents_config_def)
qed

subsection \<open>C5: pattern expansion\<close>

text \<open>
  C5. \<open>expandTargets\<close> on a pattern that is a target name of the config returns that
  name alone. Otherwise the pattern is matched with \<open>path.Match\<close> (the parameter
  \<open>M\<close>) against every target name: if \<open>path.Match\<close> reports a malformed pattern
  (\<open>None\<close>) for some name, the result is the error "could not match targets with" the
  pattern; if no name matches, it is the error "could not find any target matching" the
  pattern; else it is the list of the matching names, in the order in which the names
  are visited. In particular a pattern that is not a target name and that
  \<open>path.Match\<close> accepts for no target name, as is the case for a malformed pattern,
  always gives an error.
\<close>

theorem expandTargets_spec:
  "expandTargets M c pattern =
     (if pattern \<in> set (map fst (Target c)) then Inr [pattern]
      else if \<exists>name \<in> set (map fst (Target c)). M pattern name = None
        then Inl (CouldNotMatchTargets pattern)
      else if filter (\<lambda>name. M pattern name = Some True) (map fst (Target c)) = []
        then Inl (NoTargetMatching pattern)
      else Inr (filter (\<lambda>name. M pattern name = Some True) (map fst (Target c)))) \<and>
   (pattern \<notin> set (map fst (Target c)) \<longrightarrow>
    (\<forall>name \<in> set (map fst (Target c)). M pattern name \<noteq> Some True) \<longrightarrow>
    expandTargets M c pattern = Inl (CouldNotMatchTargets pattern) \<or>
    expandTargets M c pattern = Inl (NoTargetMatching pattern))"
proof -
  have "filter (\<lambda>name. M pattern name = Some True) (map fst (Target c)) = []"
    if "\<forall>name \<in> set (map fst (Target c)). M pattern name \<noteq> Some True"
    using that by (simp add: filter_empty_conv)
  then show ?thesis
    unfolding expandTargets_cases[of M c pattern] by simp
qed

text \<open>
  The examples of the tests: an exact name, the glob \<open>web*\<close> over \<open>webDEP\<close>, \<open>webapp\<close>
  and \<open>other\<close>, a glob without a match, and a malformed pattern.
\<close>

theorem expandTargets_spec_witness:
  "expandTargets test_Match test_config ''webapp'' = Inr [''webapp''] \<and>
   expandTargets test_Match (test_config\<lparr>Target := Target test_config @ [(''other'', zeroTarget)]\<rparr>) ''web*'' =
     Inr [''webDEP'', ''webapp''] \<and>
   expandTargets test_Match test_config ''nomatch*'' = Inl (NoTargetMatching ''nomatch*'') \<and>
   ''['' \<notin> set (map fst (Target test_config)) \<and>
   test_Match ''['' ''webDEP'' \<noteq> Some True \<and> test_Match ''['' ''webapp'' \<noteq> Some True \<and>
   expandTargets test_Match test_config ''['' = Inl (CouldNotMatchTargets ''['')"
proof -
  note s = expandTargets_spec[of test_Match, THEN conjunct1]
  have n: "''['' \<notin> set (map fst (Target test_config))"
    and m: "\<forall>name \<in> set (map fst (Target test_config)). test_Match ''['' name \<noteq> Some True"
    by (simp_all add: test_config_def test_Match_def)
  from expandTargets_spec[of test_Match test_config "''[''", THEN conjunct2, THEN mp, THEN mp, OF n m]
  have "expandTargets test_Match test_config ''['' = Inl (CouldNotMatchTargets ''['')"
    by (auto simp add: s test_config_def test_Match_def)
  moreover have "expandTargets test_Match test_config ''webapp'' = Inr [''webapp'']"
    "expandTargets test_Match (test_config\<lparr>Target := Target test_config @ [(''other'', zeroTarget)]\<rparr>) ''web*'' =
       Inr [''webDEP'', ''webapp'']"
    "expandTargets test_Match test_config ''nomatch*'' = Inl (NoTargetMatching ''nomatch*'')"
    unfolding s by (auto simp add: test_config_def test_Match_def)
  ultimately show ?thesis using n m by (simp add: test_config_def)
qed

subsection \<open>C6: merging two files\<close>

text \<open>
  C6. Let both configs declare target \<open>k\<close>, as \<open>t1\<close> in the first and as \<open>t2\<close> in the
  second (whose target names are distinct, as the keys of a Go map are). Then the
  merged config holds \<open>merge t1 t2\<close> under \<open>k\<close>, whose build arguments are those of
  \<open>t1\<close> overlaid with those of \<open>t2\<close>; and whenever resolving \<open>k\<close> in the merged config
  succeeds, every argument key \<open>a\<close> of \<open>t1\<close> or of \<open>t2\<close> is present in the result, with
  the value of the override table for \<open>k\<close> if that sets \<open>a\<close>, else the value of \<open>t2\<close> if
  \<open>t2\<close> has \<open>a\<close>, else the value of \<open>t1\<close>.
\<close>

theorem cross_file_merge_unions_args:
  assumes t1: "map_of (Target c1) k = Some t1" and t2: "map_of (Target c2) k = Some t2"
    and d: "distinct (map fst (Target c2))"
    and r: "ResolveTarget (mergeConfig c1 c2) k ov = Inr t"
    and a: "a \<in> dom (entries (Args t1)) \<union> dom (entries (Args t2))"
  shows "map_of (Target (mergeConfig c1 c2)) k = Some (merge t1 t2) \<and>
     entries (Args (merge t1 t2)) = entries (Args t1) ++ entries (Args t2) \<and>
     entries (Args t) a = (entries (Args t1) ++ entries (Args t2) ++ entries (Args (lookupT ov k))) a \<and>
     a \<in> dom (entries (Args t))"
proof -
  have m: "map_of (Target (mergeConfig c1 c2)) k = Some (merge t1 t2)"
    using t1 t2 by (simp add: mergeConfig_def map_of_mergeConfig_targets[OF d])
  have e: "entries (Args (merge t1 t2)) = entries (Args t1) ++ entries (Args t2)"
    by (simp add: merge_fields entries_mergeMap)
  from r obtain v t0 where t0: "target (mergeConfig c1 c2) k {} ov = (v, Inr (Some t0))"
    and tt0: "Args t = Args t0"
    by (auto simp: ResolveTarget_Inr)
  from target_own_Args[OF t0 m] obtain tt :: Target where
    "entries (Args t0) = entries (Args tt) ++ entries (Args (merge t1 t2)) ++ entries (Args (lookupT ov k))"
    by blast
  then have x: "entries (Args t) = entries (Args tt) ++ (entries (Args t1) ++ entries (Args t2)) ++
      entries (Args (lookupT ov k))"
    using tt0 e by simp
  from a have "a \<in> dom (entries (Args t1) ++ entries (Args t2))" by auto
  then obtain y where y: "(entries (Args t1) ++ entries (Args t2)) a = Some y" by (meson domD)
  have v: "entries (Args t) a = (entries (Args t1) ++ entries (Args t2) ++ entries (Args (lookupT ov k))) a"
    unfolding x using y by (simp add: map_add_def split: option.splits)
  then have "a \<in> dom (entries (Args t))" using y by (auto simp: map_add_def split: option.splits)
  with m e v show ?thesis by simp
qed

text \<open>The two files of the test: \<open>buildno\<close> from the first, \<open>buildno2\<close> from the second.\<close>

theorem cross_file_merge_unions_args_witness:
  "\<exists>t. ResolveTarget (mergeConfig compose_config1 compose_config2) ''webapp'' Map.empty = Inr t \<and>
     entries (Args t) ''buildno'' = Some ''1'' \<and> entries (Args t) ''buildno2'' = Some ''12'' \<and>
     Dockerfile t = Some ''Dockerfile.webapp'' \<and> Context t = Some ''.''"
proof -
  let ?t1 = "zeroTarget\<lparr>Dockerfile := Some ''Dockerfile.webapp'', Args := Some [''buildno'' \<mapsto> ''1'']\<rparr>"
  let ?t2 = "zeroTarget\<lparr>Args := Some [''buildno2'' \<mapsto> ''12'']\<rparr>"
  have t1: "map_of (Target compose_config1) ''webapp'' = Some ?t1"
    and t2: "map_of (Target compose_config2) ''webapp'' = Some ?t2"
    and d: "distinct (map fst (Target compose_config2))"
    by (simp_all add: compose_config1_def compose_config2_def)
  obtain t where r: "ResolveTarget (mergeConfig compose_config1 compose_config2) ''webapp'' Map.empty = Inr t"
    and f: "Dockerfile t = Some ''Dockerfile.webapp''" "Context t = Some ''.''"
    by (simp add: eval_target mergeConfig_def compose_config1_def compose_config2_def)
  have a1: "''buildno'' \<in> dom (entries (Args ?t1)) \<union> dom (entries (Args ?t2))"
    and a2: "''buildno2'' \<in> dom (entries (Args ?t1)) \<union> dom (entries (Args ?t2))"
    by (simp_all add: zeroTarget_def)
  from cross_file_merge_unions_args[OF t1 t2 d r a1] cross_file_merge_unions_args[OF t1 t2 d r a2]
  have "entries (Args t) ''buildno'' = Some ''1''" "entries (Args t) ''buildno2'' = Some ''12''"
    by (simp_all add: zeroTarget_def lookupT_def)
  with r f show ?thesis by blast
qed

subsection \<open>C7: termination\<close>

text \<open>
  C7. \<open>target\<close> and its loop are defined by the recursion of the source and are total:
  the termination proof above measures the target names of the config that are not yet
  visited. The theorem states what that proof rests on and what it gives. A revisited
  name is cut off: the call returns \<open>nil, nil\<close> without recursing and leaves the
  visited set as it is. Every call returns a visited set that contains the one it
  received and the name it was called with. A call that goes on to recurse (the name is
  new and is a target of the config) strictly decreases the number of unvisited target
  names. And \<open>ResolveTarget\<close> returns, for every config, cyclic or not, every name and
  every override table, either a target or the error that a target was not found; it
  never dereferences a nil result.
\<close>

theorem target_resolution_terminates:
  "(name \<in> visited \<longrightarrow> target c name visited ov = (visited, Inr None)) \<and>
   insert name visited \<subseteq> fst (target c name visited ov) \<and>
   (name \<notin> visited \<longrightarrow> map_of (Target c) name \<noteq> None \<longrightarrow>
      card (set (map fst (Target c)) - insert name visited)
        < card (set (map fst (Target c)) - visited)) \<and>
   ((\<exists>t. ResolveTarget c name ov = Inr t) \<or>
    (\<exists>n. ResolveTarget c name ov = Inl (TargetNotFound n)))"
proof -
  have a: "name \<in> visited \<longrightarrow> target c name visited ov = (visited, Inr None)"
    by (simp add: target_visited)
  have b: "insert name visited \<subseteq> fst (target c name visited ov)"
    using target_visited_mono(1)[of visited c name ov] target_name_visited[of name c visited ov]
    by simp
  have m: "card (set (map fst (Target c)) - insert name visited)
        < card (set (map fst (Target c)) - visited)"
    if "name \<notin> visited" "map_of (Target c) name \<noteq> None"
  proof -
    have "name \<in> set (map fst (Target c))"
      using that(2) by (simp add: map_of_eq_None_iff)
    then show ?thesis using that(1) by (intro psubset_card_mono) auto
  qed
  obtain v r where vr: "target c name {} ov = (v, r)" by (cases "target c name {} ov")
  have d: "(\<exists>t. ResolveTarget c name ov = Inr t) \<or>
    (\<exists>n. ResolveTarget c name ov = Inl (TargetNotFound n))"
  proof (cases r)
    case (Inl e)
    then obtain n where "e = TargetNotFound n" using target_errors(1)[of c name "{}" ov v e] vr by auto
    then show ?thesis using vr Inl by (simp add: ResolveTarget_def)
  next
    case (Inr b)
    have "b \<noteq> None" using target_None_iff[of c name "{}" ov v] vr Inr by auto
    then obtain t where "b = Some t" by auto
    then show ?thesis using vr Inr by (simp add: ResolveTarget_def)
  qed
  from a b m d show ?thesis by blast
qed

text \<open>
  Two targets that inherit each other: resolving \<open>a\<close> visits \<open>a\<close> and \<open>b\<close>, cuts the
  cycle at the second visit of \<open>a\<close>, and returns the merge of what \<open>b\<close> and \<open>a\<close>
  declare.
\<close>

theorem target_resolution_terminates_witness:
  "ResolveTarget cyclic_config ''a'' Map.empty =
     Inr (zeroTarget\<lparr>Context := Some ''.'', Dockerfile := Some ''Dockerfile.b'', Tags := Some [''ta'']\<rparr>) \<and>
   target cyclic_config ''a'' {''a'', ''b''} Map.empty = ({''a'', ''b''}, Inr None) \<and>
   fst (target cyclic_config ''a'' {} Map.empty) = {''a'', ''b''}"
proof -
  have r: "ResolveTarget cyclic_config ''a'' Map.empty =
     Inr (zeroTarget\<lparr>Context := Some ''.'', Dockerfile := Some ''Dockerfile.b'', Tags := Some [''ta'']\<rparr>)"
    and v: "fst (target cyclic_config ''a'' {} Map.empty) = {''a'', ''b''}"
    by (auto simp add: eval_target cyclic_config_def)
  have "''a'' \<in> {''a'', ''b''}" by simp
  with target_resolution_terminates[of "''a''" "{''a'', ''b''}" cyclic_config Map.empty]
  have "target cyclic_config ''a'' {''a'', ''b''} Map.empty = ({''a'', ''b''}, Inr None)" by blast
  with r v show ?thesis by simp
qed

subsection \<open>C8: normalisation\<close>

text \<open>
  C8. Normalisation deduplicates, keeps the order in which values are first seen, and is
  idempotent. \<open>removeDupes\<close> of a nil slice is nil; of a slice with the elements \<open>xs\<close>
  it is the slice of the elements at the positions \<open>k\<close> where \<open>xs ! k\<close> does not occur
  earlier in \<open>xs\<close>, in increasing order of \<open>k\<close> (which is \<open>first_occurrences {} xs\<close>).
  The result has no duplicates, the same set of elements, and is a subsequence of
  \<open>xs\<close>; a second \<open>removeDupes\<close> changes nothing, and \<open>normalize\<close> applied to a
  normalised target returns it unchanged.
\<close>

theorem removeDupes_first_seen_order:
  "removeDupes None = None \<and>
   removeDupes (Some xs) =
     Some (map (\<lambda>k. xs ! k) (filter (\<lambda>k. xs ! k \<notin> set (take k xs)) [0..<length xs])) \<and>
   removeDupes (Some xs) = Some (first_occurrences {} xs) \<and>
   distinct (elems (removeDupes (Some xs))) \<and>
   set (elems (removeDupes (Some xs))) = set xs \<and>
   subseq (elems (removeDupes (Some xs))) xs \<and>
   removeDupes (removeDupes (Some xs)) = removeDupes (Some xs) \<and>
   normalize_Target (normalize_Target t) = normalize_Target t"
proof -
  have r: "removeDupes (Some xs) = Some (first_occurrences {} xs)"
    by (rule removeDupes_first_occurrences)
  have i: "removeDupes (Some xs) =
     Some (map (\<lambda>k. xs ! k) (filter (\<lambda>k. xs ! k \<notin> set (take k xs)) [0..<length xs]))"
    unfolding r using first_occurrences_index[of "{}" xs] by simp
  have d: "distinct (elems (removeDupes (Some xs)))"
    unfolding r by (simp add: distinct_first_occurrences)
  have s: "set (elems (removeDupes (Some xs))) = set xs"
    unfolding r by (simp add: set_first_occurrences)
  have q: "subseq (elems (removeDupes (Some xs))) xs"
    unfolding r by (simp add: subseq_first_occurrences)
  show ?thesis
    using r i d s q removeDupes_idem[of "Some xs"] normalize_idem[of t] by simp
qed

text \<open>The example of the specification: tags \<open>a, a, b\<close> normalise to \<open>a, b\<close>.\<close>

theorem removeDupes_first_seen_order_witness:
  "removeDupes (Some [''a'', ''a'', ''b'']) = Some [''a'', ''b''] \<and>
   Tags (normalize_Target (zeroTarget\<lparr>Tags := Some [''a'', ''a'', ''b'']\<rparr>)) = Some [''a'', ''b''] \<and>
   normalize_Target (normalize_Target (zeroTarget\<lparr>Tags := Some [''a'', ''a'', ''b'']\<rparr>)) =
     normalize_Target (zeroTarget\<lparr>Tags := Some [''a'', ''a'', ''b'']\<rparr>)"
  using removeDupes_first_seen_order[of "[''a'', ''a'', ''b'']" "zeroTarget\<lparr>Tags := Some [''a'', ''a'', ''b'']\<rparr>"]
  by (simp add: normalize_fields)


subsection \<open>C9: the config during resolution\<close>

text \<open>
  C9. The claim: resolving a target leaves every target record stored in the config
  unchanged. The code on a config whose target \<open>t\<close> has the tags \<open>a, a, b\<close>, with no
  overrides: \<open>target\<close> copies the record, so the result's \<open>Tags\<close> is a header over the
  config's own array; \<open>normalize\<close> then removes the duplicate in place. The call returns
  the tags \<open>a, b\<close> (the header with length 2), and leaves the array as \<open>a, b, b\<close>: read
  through the config, whose header still has length 3, the tags of \<open>t\<close> have changed
  from \<open>a, a, b\<close> to \<open>a, b, b\<close>. (The last two conjuncts: a second resolution, on
  the store as the first one left it, returns the same target; and that target denotes
  what \<open>ResolveTarget\<close> of the first part returns on the config as it was.)
\<close>

theorem resolution_rewrites_config_array:
  "denote dup_store dup_target = zeroTarget\<lparr>Tags := Some [''a'', ''a'', ''b'']\<rparr> \<and>
   ResolveTarget_store dup_config ''t'' dup_store Map.empty =
     ([[''a'', ''b'', ''b'']],
      Inr (zeroTarget_s\<lparr>Context_s := Some ''.'', Dockerfile_s := Some ''Dockerfile'',
             Tags_s := Some \<lparr>array = 0, len = 2, cap = 3\<rparr>\<rparr>)) \<and>
   denote [[''a'', ''b'', ''b'']] dup_target = zeroTarget\<lparr>Tags := Some [''a'', ''b'', ''b'']\<rparr> \<and>
   denote [[''a'', ''b'', ''b'']] dup_target \<noteq> denote dup_store dup_target \<and>
   ResolveTarget_store dup_config ''t'' [[''a'', ''b'', ''b'']] Map.empty =
     ([[''a'', ''b'', ''b'']],
      Inr (zeroTarget_s\<lparr>Context_s := Some ''.'', Dockerfile_s := Some ''Dockerfile'',
             Tags_s := Some \<lparr>array = 0, len = 2, cap = 3\<rparr>\<rparr>)) \<and>
   ResolveTarget \<lparr>Group = [], Target = [(''t'', denote dup_store dup_target)]\<rparr> ''t'' Map.empty =
     Inr (denote [[''a'', ''b'', ''b'']]
       (zeroTarget_s\<lparr>Context_s := Some ''.'', Dockerfile_s := Some ''Dockerfile'',
          Tags_s := Some \<lparr>array = 0, len = 2, cap = 3\<rparr>\<rparr>))"
  by (simp add: eval_store eval_target dup_store_def dup_target_def dup_config_def)

subsection \<open>C10: a resolved target has no inherits\<close>

text \<open>
  C10. Every target that \<open>ResolveTarget\<close> returns has an empty (nil) \<open>Inherits\<close>
  list, for every config and target name and for every override table that
  \<open>newOverrides\<close> produces: \<open>target\<close> clears the target's own \<open>Inherits\<close> before the
  final merge, the inherited results have none by induction, and no case of
  \<open>newOverrides\<close> assigns the field.
\<close>

theorem resolved_inherits_empty:
  assumes "newOverrides M env c vs = Inr ov" and "ResolveTarget c name ov = Inr t"
  shows "Inherits t = None"
proof -
  from assms(2) obtain v t0 where r: "target c name {} ov = (v, Inr (Some t0))"
    and t: "Inherits t = Inherits t0"
    by (auto simp: ResolveTarget_Inr)
  have "Inherits t0 = None"
    by (rule target_Inherits[OF newOverrides_Inherits[OF assms(1)] r])
  then show ?thesis using t by simp
qed

theorem resolved_inherits_empty_witness:
  "\<exists>ov t. newOverrides test_Match Map.empty test_config [''webapp.context=foo''] = Inr ov \<and>
     ResolveTarget test_config ''webapp'' ov = Inr t \<and> Context t = Some ''foo'' \<and>
     Inherits t = None"
proof -
  let ?ov = "[''webapp'' \<mapsto> zeroTarget\<lparr>Context := Some ''foo''\<rparr>]"
  have a: "newOverrides test_Match Map.empty test_config [''webapp.context=foo''] = Inr ?ov"
    by (simp add: eval_overrides test_config_def)
  obtain t where b: "ResolveTarget test_config ''webapp'' ?ov = Inr t"
    and c: "Context t = Some ''foo''"
    by (simp add: eval_target test_config_def)
  from resolved_inherits_empty[OF a b] a b c show ?thesis by blast
qed

end
